theory Spec2Isabelle
  imports Main
begin

section \<open>Data model\<close>

text \<open>
  The repository carries two variants of the navigation engine (class
  \<open>Conversation\<close>): the one over a flow with precomputed \<open>starts\<close> and \<open>steps\<close> whose
  type is \<open>conversation\<close> (suffix \<open>_A\<close> below), and the one over \<open>vertices\<close> and a flat
  \<open>edges\<close> list whose type contains \<open>flowchart\<close> (suffix \<open>_B\<close>).  Functions that are
  textually the same in both (\<open>back\<close>, \<open>notify\<close>, \<open>isReady\<close>, \<open>subscribe\<close>,
  \<open>unsubscribe\<close>) are modelled once.

  Asynchronous code is modelled run-to-completion: every \<open>await\<close> is a sequence point,
  a rejected promise is an \<open>Inl\<close>, and a call that never settles is \<open>None\<close>.
  A step hook is modelled by functions over an external environment \<open>'e\<close>, so that a
  hook may answer differently at each query.  Hooks do not call back into the
  conversation while they are queried, and \<open>render\<close> is left out.  The objects
  \<open>steps\<close> and \<open>vertices\<close> are association lists in key order.  Every notification
  is logged in the store together with the conversation that sent it.
\<close>

type_synonym vid = string
type_synonym observer = nat

datatype error =
    GraphTypeMismatch
  | NoStartFound
  | MissingSubroutineSource vid
  | ModuleResolutionError string
  | ReadError string
  | TypeError
  | StepError string

record edge =
  e_start :: vid
  e_end :: vid
  e_type :: string
  e_stroke :: string
  e_text :: string

text \<open>\<open>StepHook\<close>: both methods are optional at run time (the code guards them with
  \<open>?.\<close>); \<open>isComplete\<close> receives \<open>throwOnError\<close>, which may be \<open>undefined\<close>.\<close>

record 'e stephook =
  hk_isComplete :: "(bool option \<Rightarrow> 'e \<Rightarrow> (error + bool) \<times> 'e) option"
  hk_isReady :: "('e \<Rightarrow> (error + bool) \<times> 'e) option"

text \<open>A step's hook is a leaf hook or a nested \<open>Conversation\<close> instance (an address).\<close>

datatype 'e hook = StepHook "'e stephook" | SubConversation nat

text \<open>\<open>props.module\<close>: absent, a string to be imported, or a factory called with the props.\<close>

datatype 'e module_ref =
    NoModule
  | ModuleName string
  | ModuleFn "'e \<Rightarrow> (error + 'e stephook option) \<times> 'e"

datatype 'e vertex = Vertex
    (v_type: "string option")
    (v_to: "edge list")
    (v_from: "edge list")
    (v_module: "'e module_ref")
    (v_key: "string option")
    (v_src: "string option")
    (v_uri: "string option")
    (v_start: "string option")
    (v_flow: "'e flow option")
and 'e flow = Flow
    (f_type: string)
    (f_starts: "vid list")
    (f_steps: "(vid \<times> 'e vertex) list")
    (f_edges: "edge list")

text \<open>
  One type serves both variants.  Variant A reads \<open>starts\<close>, \<open>steps\<close> (\<open>f_steps\<close>, in
  key order) and each step's own \<open>edges.to\<close> and \<open>edges.from\<close> (\<open>v_to\<close>, \<open>v_from\<close>);
  variant B reads \<open>vertices\<close> (again \<open>f_steps\<close>) and the flat \<open>edges\<close> (\<open>f_edges\<close>).
  The remaining fields of a vertex are its \<open>type\<close> and the entries of its \<open>props\<close>
  that the engine looks at.
\<close>

record 'e step =
  s_id :: vid
  s_to :: "edge list"
  s_from :: "edge list"
  s_hook :: "'e hook option"

text \<open>The async generator: created, suspended at its \<open>yield\<close> holding the local \<open>next\<close>,
  or finished (returned or thrown).\<close>

datatype 'e gen = GenCreated | GenSuspended "'e step" | GenDone

text \<open>The promise held in \<open>this.step\<close>.\<close>

datatype 'e promise = Pending | Resolved "'e step option" | Rejected error

record 'e conversation =
  c_flow :: "'e flow"
  c_gen :: "'e gen"
  c_observers :: nat
  c_parent :: "nat option"
  c_step :: "'e promise"
  breadcrumbs :: "'e step list"

record 'e props =
  p_conversation :: "nat option"
  p_flow :: "'e flow option"
  p_observers :: "nat option"
  p_src :: "string option"
  p_start :: "string option"

text \<open>A notification: the emitting conversation, the observer called, the action and
  the id of the step passed (\<open>None\<close> for \<open>undefined\<close>).\<close>

type_synonym notification = "nat \<times> observer \<times> string option \<times> vid option"

text \<open>The store: the hooks' environment, the importable modules, the \<open>Conversation\<close>
  objects, the observer arrays (shared by reference), the notifications sent so far
  and the next free address.\<close>

record 'e world =
  w_env :: 'e
  w_modules :: "string \<Rightarrow> (string \<Rightarrow> ('e \<Rightarrow> (error + 'e stephook option) \<times> 'e) option) option"
  w_files :: "string \<Rightarrow> 'e flow option"
  w_heap :: "nat \<Rightarrow> 'e conversation option"
  w_arrays :: "nat \<Rightarrow> observer list"
  w_log :: "notification list"
  w_next :: nat

type_synonym ('e, 'a) outcome = "((error + 'a) \<times> 'e world) option"

section \<open>Operations shared by both variants\<close>

definition truthy :: "string option \<Rightarrow> bool" where
  "truthy s = (case s of None \<Rightarrow> False | Some t \<Rightarrow> t \<noteq> [])"

text \<open>
  \<open>id in obj\<close> for the plain objects \<open>steps\<close> and \<open>vertices\<close>: true of the own keys and of
  the names of the properties inherited from \<open>Object.prototype\<close>.  The value found
  under an inherited name is a function or the prototype itself; none of them has a
  property \<open>props\<close>, so that the destructuring in \<open>get\<close> is a \<open>TypeError\<close> there.
\<close>

definition inherited_names :: "string list" where
  "inherited_names =
     [''constructor'', ''__defineGetter__'', ''__defineSetter__'', ''hasOwnProperty'',
      ''__lookupGetter__'', ''__lookupSetter__'', ''isPrototypeOf'', ''propertyIsEnumerable'',
      ''toString'', ''valueOf'', ''__proto__'', ''toLocaleString'']"

definition has_property :: "(string \<times> 'a) list \<Rightarrow> string \<Rightarrow> bool" where
  "has_property kvs i \<longleftrightarrow> map_of kvs i \<noteq> None \<or> i \<in> set inherited_names"

text \<open>\<open>await this.step\<close>.\<close>

definition await_step :: "nat \<Rightarrow> 'e world \<Rightarrow> ('e, 'e step option) outcome" where
  "await_step c w =
     (case w_heap w c of
        None \<Rightarrow> None
      | Some cv \<Rightarrow>
          (case c_step cv of
             Pending \<Rightarrow> None
           | Rejected e \<Rightarrow> Some (Inl e, w)
           | Resolved s \<Rightarrow> Some (Inr s, w)))"

text \<open>\<open>isReady\<close>: \<open>Boolean(await this.step)\<close>.\<close>

definition isReady :: "nat \<Rightarrow> 'e world \<Rightarrow> ('e, bool) outcome" where
  "isReady c w =
     (case await_step c w of
        None \<Rightarrow> None
      | Some (Inl e, w') \<Rightarrow> Some (Inl e, w')
      | Some (Inr s, w') \<Rightarrow> Some (Inr (s \<noteq> None), w'))"

text \<open>\<open>notify\<close>: calls every observer in array order unless the action is \<open>start\<close> and
  there is a parent; then stores the step as the current one.\<close>

definition notify :: "nat \<Rightarrow> string option \<Rightarrow> 'e step option \<Rightarrow> 'e world \<Rightarrow> 'e world" where
  "notify c action st w =
     (case w_heap w c of
        None \<Rightarrow> w
      | Some cv \<Rightarrow>
          (let w1 = (if action \<noteq> Some ''start'' \<or> c_parent cv = None
                     then w\<lparr>w_log := w_log w @
                            map (\<lambda>ob. (c, ob, action, map_option s_id st)) (w_arrays w (c_observers cv))\<rparr>
                     else w)
           in w1\<lparr>w_heap := (w_heap w1)(c \<mapsto> cv\<lparr>c_step := Resolved st\<rparr>)\<rparr>))"

text \<open>\<open>step?.hook instanceof Conversation\<close>.\<close>

definition sub_of :: "'e step option \<Rightarrow> nat option" where
  "sub_of st =
     (case st of
        None \<Rightarrow> None
      | Some s \<Rightarrow> (case s_hook s of Some (SubConversation k) \<Rightarrow> Some k | _ \<Rightarrow> None))"

text \<open>\<open>back\<close>; the recursion follows the child and parent references, so it carries fuel.\<close>

fun back_nav :: "nat \<Rightarrow> nat \<Rightarrow> bool \<Rightarrow> 'e world \<Rightarrow> ('e, 'e step option) outcome" where
  "back_nav 0 c fromChild w = None"
| "back_nav (Suc n) c fromChild w =
     (case await_step c w of
        None \<Rightarrow> None
      | Some (Inl e, w1) \<Rightarrow> Some (Inl e, w1)
      | Some (Inr st, w1) \<Rightarrow>
          (case (if fromChild then None else sub_of st) of
             Some k \<Rightarrow> back_nav n k False w1
           | None \<Rightarrow>
               (case w_heap w1 c of
                  None \<Rightarrow> None
                | Some cv \<Rightarrow>
                    (if breadcrumbs cv = [] then
                       (case c_parent cv of
                          None \<Rightarrow> Some (Inr None, w1)
                        | Some p \<Rightarrow> back_nav n p True w1)
                     else
                       (let s = last (breadcrumbs cv);
                            w2 = w1\<lparr>w_heap := (w_heap w1)(c \<mapsto> cv\<lparr>breadcrumbs := butlast (breadcrumbs cv)\<rparr>)\<rparr>
                        in Some (Inr (Some s), notify c (Some ''back'') (Some s) w2))))))"

text \<open>\<open>Array.prototype.findIndex\<close> and \<open>splice(start, 1)\<close> with JavaScript's treatment of
  a negative start.\<close>

fun findIndex :: "('a \<Rightarrow> bool) \<Rightarrow> 'a list \<Rightarrow> int" where
  "findIndex P [] = -1"
| "findIndex P (x # xs) =
     (if P x then 0 else (let i = findIndex P xs in if i < 0 then -1 else i + 1))"

definition splice1 :: "int \<Rightarrow> 'a list \<Rightarrow> 'a list" where
  "splice1 i xs =
     (let len = int (length xs);
          k = (if i < 0 then max (len + i) 0 else min i len)
      in take (nat k) xs @ drop (Suc (nat k)) xs)"

fun subscribe :: "nat \<Rightarrow> nat \<Rightarrow> observer \<Rightarrow> 'e world \<Rightarrow> 'e world option" where
  "subscribe 0 c ob w = None"
| "subscribe (Suc n) c ob w =
     (case w_heap w c of
        None \<Rightarrow> None
      | Some cv \<Rightarrow>
          (let r = c_observers cv;
               w1 = w\<lparr>w_arrays := (w_arrays w)(r := w_arrays w r @ [ob])\<rparr>
           in case c_parent cv of None \<Rightarrow> Some w1 | Some p \<Rightarrow> subscribe n p ob w1))"

fun unsubscribe :: "nat \<Rightarrow> nat \<Rightarrow> observer \<Rightarrow> 'e world \<Rightarrow> 'e world option" where
  "unsubscribe 0 c ob w = None"
| "unsubscribe (Suc n) c ob w =
     (case w_heap w c of
        None \<Rightarrow> None
      | Some cv \<Rightarrow>
          (let r = c_observers cv;
               xs = w_arrays w r;
               w1 = w\<lparr>w_arrays := (w_arrays w)(r := splice1 (findIndex (\<lambda>itm. itm = ob) xs) xs)\<rparr>
           in case c_parent cv of None \<Rightarrow> Some w1 | Some p \<Rightarrow> unsubscribe n p ob w1))"

section \<open>Variant A: flows of type \<open>conversation\<close> with \<open>starts\<close> and \<open>steps\<close>\<close>

subsection \<open>\<open>isComplete\<close>\<close>

text \<open>\<open>Promise.all\<close>: the first rejection, else all the values.\<close>

fun promise_all :: "(error + 'a) list \<Rightarrow> error + 'a list" where
  "promise_all [] = Inr []"
| "promise_all (Inl e # rs) = Inl e"
| "promise_all (Inr v # rs) = (case promise_all rs of Inl e \<Rightarrow> Inl e | Inr vs \<Rightarrow> Inr (v # vs))"

text \<open>
  \<open>hook_isComplete_A n st t\<close> is \<open>st?.hook?.isComplete?.(t)\<close>, with \<open>None\<close> for
  \<open>undefined\<close>; \<open>map_isComplete_A\<close> is the \<open>map\<close> of \<open>isComplete\<close> with its
  \<open>?? true\<close>; \<open>isComplete_A\<close> is the method of the class.
\<close>

fun isComplete_A :: "nat \<Rightarrow> nat \<Rightarrow> bool \<Rightarrow> 'e world \<Rightarrow> ('e, bool) outcome"
and hook_isComplete_A :: "nat \<Rightarrow> 'e step option \<Rightarrow> bool option \<Rightarrow> 'e world \<Rightarrow> ('e, bool option) outcome"
and map_isComplete_A :: "nat \<Rightarrow> 'e step option list \<Rightarrow> bool \<Rightarrow> 'e world \<Rightarrow> ((error + bool) list \<times> 'e world) option"
where
  "isComplete_A 0 c throwOnError w = None"
| "isComplete_A (Suc n) c throwOnError w =
     (case await_step c w of
        None \<Rightarrow> None
      | Some (Inl e, w1) \<Rightarrow> Some (Inl e, w1)
      | Some (Inr cur, w1) \<Rightarrow>
          (case w_heap w1 c of
             None \<Rightarrow> None
           | Some cv \<Rightarrow>
               (case map_isComplete_A n (cur # map Some (breadcrumbs cv)) throwOnError w1 of
                  None \<Rightarrow> None
                | Some (rs, w2) \<Rightarrow>
                    (case promise_all rs of
                       Inl e \<Rightarrow> Some (Inl e, w2)
                     | Inr bs \<Rightarrow> Some (Inr (\<not> list_ex (\<lambda>pass. \<not> pass) bs), w2)))))"
| "hook_isComplete_A 0 st t w = None"
| "hook_isComplete_A (Suc n) st t w =
     (case st of
        None \<Rightarrow> Some (Inr None, w)
      | Some s \<Rightarrow>
          (case s_hook s of
             None \<Rightarrow> Some (Inr None, w)
           | Some (StepHook h) \<Rightarrow>
               (case hk_isComplete h of
                  None \<Rightarrow> Some (Inr None, w)
                | Some f \<Rightarrow>
                    (case f t (w_env w) of
                       (Inl e, env') \<Rightarrow> Some (Inl e, w\<lparr>w_env := env'\<rparr>)
                     | (Inr b, env') \<Rightarrow> Some (Inr (Some b), w\<lparr>w_env := env'\<rparr>)))
           | Some (SubConversation k) \<Rightarrow>
               (case isComplete_A n k (case t of None \<Rightarrow> False | Some b \<Rightarrow> b) w of
                  None \<Rightarrow> None
                | Some (Inl e, w1) \<Rightarrow> Some (Inl e, w1)
                | Some (Inr b, w1) \<Rightarrow> Some (Inr (Some b), w1))))"
| "map_isComplete_A 0 sts throwOnError w = None"
| "map_isComplete_A (Suc n) [] throwOnError w = Some ([], w)"
| "map_isComplete_A (Suc n) (st # sts) throwOnError w =
     (case hook_isComplete_A n st (Some throwOnError) w of
        None \<Rightarrow> None
      | Some (r, w1) \<Rightarrow>
          (case map_isComplete_A n sts throwOnError w1 of
             None \<Rightarrow> None
           | Some (rs, w2) \<Rightarrow>
               Some ((case r of Inl e \<Rightarrow> Inl e
                              | Inr None \<Rightarrow> Inr True
                              | Inr (Some b) \<Rightarrow> Inr b) # rs, w2)))"

text \<open>\<open>await st?.hook?.isReady?.()\<close> taken as a condition: \<open>undefined\<close> is false.\<close>

definition hook_isReady :: "'e step option \<Rightarrow> 'e world \<Rightarrow> ('e, bool) outcome" where
  "hook_isReady st w =
     (case st of
        None \<Rightarrow> Some (Inr False, w)
      | Some s \<Rightarrow>
          (case s_hook s of
             None \<Rightarrow> Some (Inr False, w)
           | Some (StepHook h) \<Rightarrow>
               (case hk_isReady h of
                  None \<Rightarrow> Some (Inr False, w)
                | Some f \<Rightarrow> (case f (w_env w) of (r, env') \<Rightarrow> Some (r, w\<lparr>w_env := env'\<rparr>)))
           | Some (SubConversation k) \<Rightarrow> isReady k w))"

subsection \<open>Resolving steps, construction, the start and the continuation generator\<close>

definition upd_conv :: "nat \<Rightarrow> ('e conversation \<Rightarrow> 'e conversation) \<Rightarrow> 'e world \<Rightarrow> 'e world" where
  "upd_conv c f w =
     (case w_heap w c of None \<Rightarrow> w | Some cv \<Rightarrow> w\<lparr>w_heap := (w_heap w)(c \<mapsto> f cv)\<rparr>)"

definition step_of :: "vid \<Rightarrow> 'e vertex \<Rightarrow> 'e hook option \<Rightarrow> 'e step" where
  "step_of i v h = \<lparr>s_id = i, s_to = v_to v, s_from = v_from v, s_hook = h\<rparr>"

text \<open>\<open>(await import(module))?.[key ?? 'default']\<close>; an unknown module rejects.\<close>

definition import_module ::
  "string \<Rightarrow> string option \<Rightarrow> 'e world \<Rightarrow> error + ('e \<Rightarrow> (error + 'e stephook option) \<times> 'e) option" where
  "import_module name key w =
     (case w_modules w name of
        None \<Rightarrow> Inl (ModuleResolutionError name)
      | Some ns \<Rightarrow> Inr (ns (case key of None \<Rightarrow> ''default'' | Some k \<Rightarrow> k)))"

text \<open>\<open>await step?.({ ...props })\<close> for a behaviour module.\<close>

definition call_module ::
  "('e \<Rightarrow> (error + 'e stephook option) \<times> 'e) option \<Rightarrow> 'e world \<Rightarrow> (error + 'e hook option) \<times> 'e world" where
  "call_module f w =
     (case f of
        None \<Rightarrow> (Inr None, w)
      | Some g \<Rightarrow>
          (case g (w_env w) of
             (Inl e, env') \<Rightarrow> (Inl e, w\<lparr>w_env := env'\<rparr>)
           | (Inr h, env') \<Rightarrow> (Inr (map_option StepHook h), w\<lparr>w_env := env'\<rparr>)))"

text \<open>The default branch of the \<open>switch\<close> in \<open>get\<close>, followed by the call of the module.\<close>

definition load_hook :: "'e vertex \<Rightarrow> 'e world \<Rightarrow> (error + 'e hook option) \<times> 'e world" where
  "load_hook v w =
     (case v_module v of
        ModuleName m \<Rightarrow>
          (case import_module m (v_key v) w of
             Inl e \<Rightarrow> (Inl e, w)
           | Inr f \<Rightarrow> call_module f w)
      | ModuleFn g \<Rightarrow> call_module (Some g) w
      | NoModule \<Rightarrow> call_module None w)"

text \<open>The constructor's assignments: a fresh object, and a fresh observer array unless
  one is passed in.\<close>

definition new_conversation :: "'e flow \<Rightarrow> 'e props \<Rightarrow> 'e world \<Rightarrow> nat \<times> 'e world" where
  "new_conversation fl props w =
     (let c = w_next w;
          r = (case p_observers props of None \<Rightarrow> c | Some r' \<Rightarrow> r')
      in (c, w\<lparr>w_heap := (w_heap w)(c \<mapsto>
                   \<lparr>c_flow = fl, c_gen = GenCreated, c_observers = r,
                    c_parent = p_conversation props, c_step = Pending, breadcrumbs = []\<rparr>),
               w_arrays := (if p_observers props = None then (w_arrays w)(c := []) else w_arrays w),
               w_next := Suc c\<rparr>))"

definition at_index :: "'a list \<Rightarrow> nat \<Rightarrow> 'a option" where
  "at_index xs i = (if i < length xs then Some (xs ! i) else None)"

text \<open>
  \<open>get\<close>.  The factory that builds the nested \<open>Conversation\<close> of a subroutine vertex is
  the parameter \<open>mk\<close>: it is \<open>conversation\<close> itself, one level of nesting further down.
\<close>

definition get_with_A ::
  "('e props \<Rightarrow> 'e world \<Rightarrow> ('e, nat) outcome) \<Rightarrow> nat \<Rightarrow> vid option \<Rightarrow> 'e world \<Rightarrow> ('e, 'e step option) outcome" where
  "get_with_A mk c i w =
     (if \<not> truthy i then await_step c w
      else
        (case w_heap w c of
           None \<Rightarrow> None
         | Some cv \<Rightarrow>
             (case map_of (f_steps (c_flow cv)) (the i) of
                None \<Rightarrow>
                  (if has_property (f_steps (c_flow cv)) (the i) then Some (Inl TypeError, w)
                   else Some (Inr None, w))
              | Some v \<Rightarrow>
                  (if v_type v = Some ''subroutine'' then
                     (if v_flow v = None then Some (Inl (MissingSubroutineSource (the i)), w)
                      else
                        (case mk \<lparr>p_conversation = Some c, p_flow = v_flow v,
                                  p_observers = Some (c_observers cv), p_src = None,
                                  p_start = v_start v\<rparr> w of
                           None \<Rightarrow> None
                         | Some (Inl e, w1) \<Rightarrow> Some (Inl e, w1)
                         | Some (Inr k, w1) \<Rightarrow>
                             Some (Inr (Some (step_of (the i) v (Some (SubConversation k)))), w1)))
                   else
                     (case load_hook v w of
                        (Inl e, w1) \<Rightarrow> Some (Inl e, w1)
                      | (Inr h, w1) \<Rightarrow> Some (Inr (Some (step_of (the i) v h)), w1))))))"

text \<open>The \<open>for\<close> loop of the generator over the outgoing edges: the first candidate that
  is ready is taken and the loop is left (\<open>continue outer\<close>).\<close>

fun scan_with_A ::
  "(nat \<Rightarrow> vid option \<Rightarrow> 'e world \<Rightarrow> ('e, 'e step option) outcome) \<Rightarrow> nat \<Rightarrow> edge list \<Rightarrow> 'e world \<Rightarrow> ('e, 'e step option) outcome" where
  "scan_with_A getf c [] w = Some (Inr None, w)"
| "scan_with_A getf c (e # es) w =
     (case getf c (Some (e_end e)) w of
        None \<Rightarrow> None
      | Some (Inl err, w1) \<Rightarrow> Some (Inl err, w1)
      | Some (Inr cand, w1) \<Rightarrow>
          (case hook_isReady cand w1 of
             None \<Rightarrow> None
           | Some (Inl err, w2) \<Rightarrow> Some (Inl err, w2)
           | Some (Inr ready, w2) \<Rightarrow>
               (if ready then Some (Inr cand, w2) else scan_with_A getf c es w2)))"

text \<open>The \<open>outer\<close> loop of \<open>genContinue\<close>, entered at its head with the locals \<open>id\<close> and
  \<open>next\<close>.  A result is the pair of \<open>value\<close> and \<open>done\<close>; an exception finishes the
  generator.\<close>

fun genContinue_with_A ::
  "(nat \<Rightarrow> vid option \<Rightarrow> 'e world \<Rightarrow> ('e, 'e step option) outcome) \<Rightarrow> nat \<Rightarrow> nat \<Rightarrow> string option \<Rightarrow> 'e step option \<Rightarrow> 'e world \<Rightarrow> ('e, 'e step option \<times> bool) outcome" where
  "genContinue_with_A getf 0 c i nx w = None"
| "genContinue_with_A getf (Suc n) c i nx w =
     (case nx of
        None \<Rightarrow> Some (Inr (None, True), upd_conv c (\<lambda>cv. cv\<lparr>c_gen := GenDone\<rparr>) w)
      | Some s \<Rightarrow>
          (case hook_isComplete_A (Suc n) (Some s) None w of
             None \<Rightarrow> None
           | Some (Inl e, w1) \<Rightarrow> Some (Inl e, upd_conv c (\<lambda>cv. cv\<lparr>c_gen := GenDone\<rparr>) w1)
           | Some (Inr b, w1) \<Rightarrow>
               (if b = Some True then
                  (case (if truthy i
                         then getf c i (upd_conv c (\<lambda>cv. cv\<lparr>breadcrumbs := breadcrumbs cv @ [s]\<rparr>) w1)
                         else scan_with_A getf c (s_to s)
                                (upd_conv c (\<lambda>cv. cv\<lparr>breadcrumbs := breadcrumbs cv @ [s]\<rparr>) w1)) of
                     None \<Rightarrow> None
                   | Some (Inl e, w2) \<Rightarrow> Some (Inl e, upd_conv c (\<lambda>cv. cv\<lparr>c_gen := GenDone\<rparr>) w2)
                   | Some (Inr nx', w2) \<Rightarrow> genContinue_with_A getf n c i nx' w2)
                else Some (Inr (Some s, False), upd_conv c (\<lambda>cv. cv\<lparr>c_gen := GenSuspended s\<rparr>) w1))))"

text \<open>\<open>this.gen.next(id)\<close>: a finished generator answers \<open>{value: undefined, done: true}\<close>;
  a created one starts with \<open>await this.step\<close> and an undefined \<open>id\<close>.\<close>

definition gen_next_with_A ::
  "(nat \<Rightarrow> vid option \<Rightarrow> 'e world \<Rightarrow> ('e, 'e step option) outcome) \<Rightarrow> nat \<Rightarrow> nat \<Rightarrow> string option \<Rightarrow> 'e world \<Rightarrow> ('e, 'e step option \<times> bool) outcome" where
  "gen_next_with_A getf n c i w =
     (case w_heap w c of
        None \<Rightarrow> None
      | Some cv \<Rightarrow>
          (case c_gen cv of
             GenDone \<Rightarrow> Some (Inr (None, True), w)
           | GenSuspended s \<Rightarrow> genContinue_with_A getf n c i (Some s) w
           | GenCreated \<Rightarrow>
               (case await_step c w of
                  None \<Rightarrow> None
                | Some (Inl e, w1) \<Rightarrow> Some (Inl e, upd_conv c (\<lambda>cv. cv\<lparr>c_gen := GenDone\<rparr>) w1)
                | Some (Inr nx, w1) \<Rightarrow> genContinue_with_A getf n c None nx w1)))"

text \<open>The \<open>while\<close> loop of \<open>findStart\<close> with its locals \<open>step\<close> and \<open>index\<close>.\<close>

fun findStart_loop_with_A ::
  "(nat \<Rightarrow> vid option \<Rightarrow> 'e world \<Rightarrow> ('e, 'e step option) outcome) \<Rightarrow> nat \<Rightarrow> nat \<Rightarrow> 'e step option \<Rightarrow> nat \<Rightarrow> 'e world \<Rightarrow> ('e, 'e step option) outcome" where
  "findStart_loop_with_A getf 0 c st index w = None"
| "findStart_loop_with_A getf (Suc n) c st index w =
     (case w_heap w c of
        None \<Rightarrow> None
      | Some cv \<Rightarrow>
          (if st \<noteq> None \<or> truthy (at_index (f_starts (c_flow cv)) index) then
             (case hook_isReady st w of
                None \<Rightarrow> None
              | Some (Inl e, w1) \<Rightarrow> Some (Inl e, w1)
              | Some (Inr ready, w1) \<Rightarrow>
                  (if ready then Some (Inr st, w1)
                   else
                     (case getf c (Some (case at_index (f_starts (c_flow cv)) index of
                                           None \<Rightarrow> '' '' | Some i \<Rightarrow> i)) w1 of
                        None \<Rightarrow> None
                      | Some (Inl e, w2) \<Rightarrow> Some (Inl e, w2)
                      | Some (Inr st', w2) \<Rightarrow> findStart_loop_with_A getf n c st' (Suc index) w2)))
           else Some (Inr st, w)))"

text \<open>
  \<open>findStart\<close>.  Its promise is what the constructor stores in \<open>this.step\<close>: a throw
  leaves it rejected, and \<open>notify\<close> replaces it by the resolved step.  The generator
  that \<open>this.gen?.next()\<close> starts begins with \<open>await this.step\<close>, so its first
  segment (\<open>prime_with_A\<close>, up to the first \<open>yield\<close>) runs once \<open>findStart\<close> has
  settled, and only when \<open>findStart\<close> has not thrown before that call; its result is
  not awaited.
\<close>

definition findStart_with_A ::
  "(nat \<Rightarrow> vid option \<Rightarrow> 'e world \<Rightarrow> ('e, 'e step option) outcome) \<Rightarrow> nat \<Rightarrow> nat \<Rightarrow> string option \<Rightarrow> 'e world \<Rightarrow> 'e world option" where
  "findStart_with_A getf n c start w =
     (case (if truthy start then getf c start w else Some (Inr None, w)) of
        None \<Rightarrow> None
      | Some (Inl e, w1) \<Rightarrow> Some (upd_conv c (\<lambda>cv. cv\<lparr>c_step := Rejected e\<rparr>) w1)
      | Some (Inr st, w1) \<Rightarrow>
          (case findStart_loop_with_A getf n c st 0 w1 of
             None \<Rightarrow> None
           | Some (Inl e, w2) \<Rightarrow> Some (upd_conv c (\<lambda>cv. cv\<lparr>c_step := Rejected e\<rparr>) w2)
           | Some (Inr None, w2) \<Rightarrow> Some (upd_conv c (\<lambda>cv. cv\<lparr>c_step := Rejected NoStartFound\<rparr>) w2)
           | Some (Inr (Some s), w2) \<Rightarrow>
               Some (notify c (if Some (s_id s) = start then start else Some ''start'') (Some s) w2)))"

definition prime_with_A ::
  "(nat \<Rightarrow> vid option \<Rightarrow> 'e world \<Rightarrow> ('e, 'e step option) outcome) \<Rightarrow> nat \<Rightarrow> nat \<Rightarrow> 'e world \<Rightarrow> 'e world option" where
  "prime_with_A getf n c w =
     (case w_heap w c of
        None \<Rightarrow> None
      | Some cv \<Rightarrow>
          (case c_step cv of
             Resolved st \<Rightarrow>
               (case gen_next_with_A getf n c None w of
                  None \<Rightarrow> None
                | Some (r, w1) \<Rightarrow> Some w1)
           | _ \<Rightarrow> Some w))"

text \<open>The exported \<open>conversation\<close> with the constructor: the type check, the
  assignments, \<open>findStart\<close> and the first segment of the generator.  The fuel bounds
  the nesting of subroutines and the iterations of the loops.\<close>

primrec conversation_A :: "nat \<Rightarrow> 'e props \<Rightarrow> 'e world \<Rightarrow> ('e, nat) outcome" where
  "conversation_A 0 = (\<lambda>props w.
     (if map_option f_type (p_flow props) \<noteq> Some ''conversation''
      then Some (Inl GraphTypeMismatch, w) else None))"
| "conversation_A (Suc n) = (\<lambda>props w.
     (if map_option f_type (p_flow props) \<noteq> Some ''conversation''
      then Some (Inl GraphTypeMismatch, w)
      else
        (case new_conversation (the (p_flow props)) props w of
           (c, w1) \<Rightarrow>
             (case findStart_with_A (get_with_A (conversation_A n)) n c (p_start props) w1 of
                None \<Rightarrow> None
              | Some w2 \<Rightarrow>
                  (case prime_with_A (get_with_A (conversation_A n)) n c w2 of
                     None \<Rightarrow> None
                   | Some w3 \<Rightarrow> Some (Inr c, w3))))))"

definition get_A :: "nat \<Rightarrow> nat \<Rightarrow> vid option \<Rightarrow> 'e world \<Rightarrow> ('e, 'e step option) outcome" where
  "get_A n = get_with_A (conversation_A n)"

definition gen_next_A :: "nat \<Rightarrow> nat \<Rightarrow> string option \<Rightarrow> 'e world \<Rightarrow> ('e, 'e step option \<times> bool) outcome" where
  "gen_next_A n = gen_next_with_A (get_A n) n"

definition findStart_A :: "nat \<Rightarrow> nat \<Rightarrow> string option \<Rightarrow> 'e world \<Rightarrow> 'e world option" where
  "findStart_A n = findStart_with_A (get_A n) n"

text \<open>\<open>continue\<close>.\<close>

fun continue_A :: "nat \<Rightarrow> nat \<Rightarrow> string option \<Rightarrow> bool \<Rightarrow> 'e world \<Rightarrow> ('e, 'e step option) outcome" where
  "continue_A 0 c i fromChild w = None"
| "continue_A (Suc n) c i fromChild w =
     (case await_step c w of
        None \<Rightarrow> None
      | Some (Inl e, w0) \<Rightarrow> Some (Inl e, w0)
      | Some (Inr st, w0) \<Rightarrow>
          (case (case (if fromChild then None else sub_of st) of
                   None \<Rightarrow> Some (Inr None, w0)
                 | Some k \<Rightarrow> continue_A n k i False w0) of
             None \<Rightarrow> None
           | Some (Inl e, w1) \<Rightarrow> Some (Inl e, w1)
           | Some (Inr (Some s'), w1) \<Rightarrow> Some (Inr (Some s'), w1)
           | Some (Inr None, w1) \<Rightarrow>
               (case gen_next_A n c i w1 of
                  None \<Rightarrow> None
                | Some (Inl e, w2) \<Rightarrow> Some (Inl e, w2)
                | Some (Inr (v, done), w2) \<Rightarrow>
                    (if map_option s_id st = map_option s_id v then Some (Inr v, w2)
                     else
                       (case w_heap w2 c of
                          None \<Rightarrow> None
                        | Some cv \<Rightarrow>
                            (if done \<and> c_parent cv \<noteq> None
                             then continue_A n (the (c_parent cv)) i True w2
                             else Some (Inr v,
                                    notify c (if done then Some ''done''
                                              else (case i of None \<Rightarrow> Some ''continue'' | Some a \<Rightarrow> Some a))
                                      v w2)))))))"

section \<open>Variant B: flows whose type contains \<open>flowchart\<close>, with \<open>vertices\<close> and \<open>edges\<close>\<close>

text \<open>\<open>String.prototype.includes\<close>.\<close>

fun includes_str :: "string \<Rightarrow> string \<Rightarrow> bool" where
  "includes_str [] t = (t = [])"
| "includes_str (x # xs) t = (take (length t) (x # xs) = t \<or> includes_str xs t)"

text \<open>\<open>st?.hook.isReady()\<close> and \<open>st?.hook?.isComplete(t)\<close> as this variant writes them: a
  missing hook or method is a \<open>TypeError\<close> where the chain is not optional.  The
  \<open>isComplete\<close> of a nested conversation is the parameter \<open>isc\<close>.\<close>

definition hook_isReady_B :: "'e step option \<Rightarrow> 'e world \<Rightarrow> ('e, bool) outcome" where
  "hook_isReady_B st w =
     (case st of
        None \<Rightarrow> Some (Inr False, w)
      | Some s \<Rightarrow>
          (case s_hook s of
             None \<Rightarrow> Some (Inl TypeError, w)
           | Some (StepHook h) \<Rightarrow>
               (case hk_isReady h of
                  None \<Rightarrow> Some (Inl TypeError, w)
                | Some f \<Rightarrow> (case f (w_env w) of (r, env') \<Rightarrow> Some (r, w\<lparr>w_env := env'\<rparr>)))
           | Some (SubConversation k) \<Rightarrow> isReady k w))"

definition call_isComplete_B ::
  "(nat \<Rightarrow> bool \<Rightarrow> 'e world \<Rightarrow> ('e, bool) outcome) \<Rightarrow> 'e hook \<Rightarrow> bool option \<Rightarrow> 'e world \<Rightarrow> ('e, bool) outcome" where
  "call_isComplete_B isc h t w =
     (case h of
        StepHook l \<Rightarrow>
          (case hk_isComplete l of
             None \<Rightarrow> Some (Inl TypeError, w)
           | Some f \<Rightarrow> (case f t (w_env w) of (r, env') \<Rightarrow> Some (r, w\<lparr>w_env := env'\<rparr>)))
      | SubConversation k \<Rightarrow> isc k (case t of None \<Rightarrow> False | Some b \<Rightarrow> b) w)"

definition hook_isComplete_B ::
  "(nat \<Rightarrow> bool \<Rightarrow> 'e world \<Rightarrow> ('e, bool) outcome) \<Rightarrow> 'e step option \<Rightarrow> 'e world \<Rightarrow> ('e, bool) outcome" where
  "hook_isComplete_B isc st w =
     (case st of
        None \<Rightarrow> Some (Inr False, w)
      | Some s \<Rightarrow>
          (case s_hook s of
             None \<Rightarrow> Some (Inr False, w)
           | Some h \<Rightarrow> call_isComplete_B isc h None w))"

text \<open>\<open>this.breadcrumbs.map((cur) => cur.hook.isComplete(throwOnError))\<close>: a \<open>TypeError\<close>
  is thrown by the callback itself and ends the \<open>map\<close>; a rejection is one of the
  promises collected.\<close>

definition lacks_isComplete :: "'e hook \<Rightarrow> bool" where
  "lacks_isComplete h =
     (case h of
        StepHook l \<Rightarrow> (case hk_isComplete l of None \<Rightarrow> True | Some f \<Rightarrow> False)
      | SubConversation k \<Rightarrow> False)"

fun map_isComplete_B ::
  "(nat \<Rightarrow> bool \<Rightarrow> 'e world \<Rightarrow> ('e, bool) outcome) \<Rightarrow> 'e step list \<Rightarrow> bool \<Rightarrow> 'e world \<Rightarrow> ('e, (error + bool) list) outcome" where
  "map_isComplete_B isc [] t w = Some (Inr [], w)"
| "map_isComplete_B isc (cur # rest) t w =
     (case s_hook cur of
        None \<Rightarrow> Some (Inl TypeError, w)
      | Some h \<Rightarrow>
          (if lacks_isComplete h then Some (Inl TypeError, w)
           else
             (case call_isComplete_B isc h (Some t) w of
                None \<Rightarrow> None
              | Some (r, w1) \<Rightarrow>
                  (case map_isComplete_B isc rest t w1 of
                     None \<Rightarrow> None
                   | Some (Inl e, w2) \<Rightarrow> Some (Inl e, w2)
                   | Some (Inr rs, w2) \<Rightarrow> Some (Inr (r # rs), w2)))))"

text \<open>\<open>isComplete\<close>: \<open>Boolean\<close> of the array that \<open>Promise.all\<close> resolves to; an array is
  truthy whatever it holds.  Only the breadcrumbs are queried.\<close>

primrec isComplete_B :: "nat \<Rightarrow> nat \<Rightarrow> bool \<Rightarrow> 'e world \<Rightarrow> ('e, bool) outcome" where
  "isComplete_B 0 = (\<lambda>c throwOnError w. None)"
| "isComplete_B (Suc n) = (\<lambda>c throwOnError w.
     (case w_heap w c of
        None \<Rightarrow> None
      | Some cv \<Rightarrow>
          (case map_isComplete_B (isComplete_B n) (breadcrumbs cv) throwOnError w of
             None \<Rightarrow> None
           | Some (Inl e, w1) \<Rightarrow> Some (Inl e, w1)
           | Some (Inr rs, w1) \<Rightarrow>
               (case promise_all rs of
                  Inl e \<Rightarrow> Some (Inl e, w1)
                | Inr bs \<Rightarrow> Some (Inr True, w1)))))"

text \<open>\<open>get\<close>: the source of a subroutine may be \<open>src\<close> or an embedded \<open>flow\<close>; \<open>src\<close> is
  taken out of the props before they are passed on.  The edges of the step are
  collected from the flat list.\<close>

definition step_of_B :: "edge list \<Rightarrow> vid \<Rightarrow> 'e hook option \<Rightarrow> 'e step" where
  "step_of_B es i h =
     \<lparr>s_id = i, s_to = filter (\<lambda>e. e_start e = i) es, s_from = filter (\<lambda>e. e_end e = i) es,
      s_hook = h\<rparr>"

definition get_with_B ::
  "('e props \<Rightarrow> 'e world \<Rightarrow> ('e, nat) outcome) \<Rightarrow> nat \<Rightarrow> vid option \<Rightarrow> 'e world \<Rightarrow> ('e, 'e step option) outcome" where
  "get_with_B mk c i w =
     (if \<not> truthy i then await_step c w
      else
        (case w_heap w c of
           None \<Rightarrow> None
         | Some cv \<Rightarrow>
             (case map_of (f_steps (c_flow cv)) (the i) of
                None \<Rightarrow>
                  (if has_property (f_steps (c_flow cv)) (the i) then Some (Inl TypeError, w)
                   else Some (Inr None, w))
              | Some v \<Rightarrow>
                  (if v_type v = Some ''subroutine'' then
                     (if \<not> truthy (v_src v) \<and> v_flow v = None
                      then Some (Inl (MissingSubroutineSource (the i)), w)
                      else
                        (case mk \<lparr>p_conversation = Some c, p_flow = v_flow v,
                                  p_observers = Some (c_observers cv), p_src = None,
                                  p_start = v_start v\<rparr> w of
                           None \<Rightarrow> None
                         | Some (Inl e, w1) \<Rightarrow> Some (Inl e, w1)
                         | Some (Inr k, w1) \<Rightarrow>
                             Some (Inr (Some (step_of_B (f_edges (c_flow cv)) (the i)
                                               (Some (SubConversation k)))), w1)))
                   else
                     (case load_hook v w of
                        (Inl e, w1) \<Rightarrow> Some (Inl e, w1)
                      | (Inr h, w1) \<Rightarrow>
                          Some (Inr (Some (step_of_B (f_edges (c_flow cv)) (the i) h)), w1))))))"

text \<open>The \<open>for\<close> loop of the generator: every ready candidate overwrites \<open>next\<close>, and the
  loop runs to the end of the edges.\<close>

fun scan_with_B ::
  "(nat \<Rightarrow> vid option \<Rightarrow> 'e world \<Rightarrow> ('e, 'e step option) outcome) \<Rightarrow> nat \<Rightarrow> edge list \<Rightarrow> 'e step option \<Rightarrow> 'e world \<Rightarrow> ('e, 'e step option) outcome" where
  "scan_with_B getf c [] nx w = Some (Inr nx, w)"
| "scan_with_B getf c (e # es) nx w =
     (case getf c (Some (e_end e)) w of
        None \<Rightarrow> None
      | Some (Inl err, w1) \<Rightarrow> Some (Inl err, w1)
      | Some (Inr cand, w1) \<Rightarrow>
          (case hook_isReady_B cand w1 of
             None \<Rightarrow> None
           | Some (Inl err, w2) \<Rightarrow> Some (Inl err, w2)
           | Some (Inr ready, w2) \<Rightarrow>
               scan_with_B getf c es (if ready then cand else nx) w2))"

text \<open>The generator.  \<open>gen_yield\<close> is the head of its \<open>while\<close> loop: it suspends on a
  defined \<open>next\<close> and returns otherwise.  \<open>gen_resume_with_B\<close> is the loop body after the
  \<open>yield\<close>, which ends at the loop head again.\<close>

definition gen_yield :: "nat \<Rightarrow> 'e step option \<Rightarrow> 'e world \<Rightarrow> ('e, 'e step option \<times> bool) outcome" where
  "gen_yield c nx w =
     (case nx of
        None \<Rightarrow> Some (Inr (None, True), upd_conv c (\<lambda>cv. cv\<lparr>c_gen := GenDone\<rparr>) w)
      | Some s \<Rightarrow> Some (Inr (Some s, False), upd_conv c (\<lambda>cv. cv\<lparr>c_gen := GenSuspended s\<rparr>) w))"

definition gen_throw :: "nat \<Rightarrow> error \<Rightarrow> 'e world \<Rightarrow> ('e, 'e step option \<times> bool) outcome" where
  "gen_throw c e w = Some (Inl e, upd_conv c (\<lambda>cv. cv\<lparr>c_gen := GenDone\<rparr>) w)"

definition gen_resume_with_B ::
  "(nat \<Rightarrow> vid option \<Rightarrow> 'e world \<Rightarrow> ('e, 'e step option) outcome) \<Rightarrow> (nat \<Rightarrow> bool \<Rightarrow> 'e world \<Rightarrow> ('e, bool) outcome) \<Rightarrow> nat \<Rightarrow> string option \<Rightarrow> 'e world \<Rightarrow> ('e, 'e step option \<times> bool) outcome" where
  "gen_resume_with_B getf isc c i w =
     (case getf c i w of
        None \<Rightarrow> None
      | Some (Inl e, w1) \<Rightarrow> gen_throw c e w1
      | Some (Inr st, w1) \<Rightarrow>
          (case hook_isComplete_B isc st w1 of
             None \<Rightarrow> None
           | Some (Inl e, w2) \<Rightarrow> gen_throw c e w2
           | Some (Inr complete, w2) \<Rightarrow>
               (if \<not> complete then gen_yield c st w2
                else
                  (case scan_with_B getf c (s_to (the st)) None
                          (upd_conv c (\<lambda>cv. cv\<lparr>breadcrumbs := breadcrumbs cv @ [the st]\<rparr>) w2) of
                     None \<Rightarrow> None
                   | Some (Inl e, w3) \<Rightarrow> gen_throw c e w3
                   | Some (Inr nx, w3) \<Rightarrow> gen_yield c nx w3))))"

text \<open>\<open>this.gen.next(id)\<close>.  A created generator first awaits what \<open>this.step\<close> held when
  it was started (\<open>started\<close>).\<close>

definition gen_start_B :: "nat \<Rightarrow> ('e, 'e step option) outcome \<Rightarrow> ('e, 'e step option \<times> bool) outcome" where
  "gen_start_B c started =
     (case started of
        None \<Rightarrow> None
      | Some (Inl e, w1) \<Rightarrow> gen_throw c e w1
      | Some (Inr nx, w1) \<Rightarrow> gen_yield c nx w1)"

definition gen_next_with_B ::
  "(nat \<Rightarrow> vid option \<Rightarrow> 'e world \<Rightarrow> ('e, 'e step option) outcome) \<Rightarrow> (nat \<Rightarrow> bool \<Rightarrow> 'e world \<Rightarrow> ('e, bool) outcome) \<Rightarrow> nat \<Rightarrow> string option \<Rightarrow> 'e world \<Rightarrow> ('e, 'e step option \<times> bool) outcome" where
  "gen_next_with_B getf isc c i w =
     (case w_heap w c of
        None \<Rightarrow> None
      | Some cv \<Rightarrow>
          (case c_gen cv of
             GenDone \<Rightarrow> Some (Inr (None, True), w)
           | GenSuspended s \<Rightarrow> gen_resume_with_B getf isc c i w
           | GenCreated \<Rightarrow> gen_start_B c (await_step c w)))"

text \<open>The \<open>do ... while\<close> loop of \<open>findStart\<close>, entered with the result of the
  \<open>gen.next\<close> just made: it goes on while the vertex obtained reports complete.\<close>

fun findStart_loop_with_B ::
  "(nat \<Rightarrow> vid option \<Rightarrow> 'e world \<Rightarrow> ('e, 'e step option) outcome) \<Rightarrow> (nat \<Rightarrow> bool \<Rightarrow> 'e world \<Rightarrow> ('e, bool) outcome) \<Rightarrow> nat \<Rightarrow> nat \<Rightarrow> ('e, 'e step option \<times> bool) outcome \<Rightarrow> ('e, 'e step option) outcome" where
  "findStart_loop_with_B getf isc 0 c r = None"
| "findStart_loop_with_B getf isc (Suc n) c r =
     (case r of
        None \<Rightarrow> None
      | Some (Inl e, w1) \<Rightarrow> Some (Inl e, w1)
      | Some (Inr (vertex, done), w1) \<Rightarrow>
          (case hook_isComplete_B isc vertex w1 of
             None \<Rightarrow> None
           | Some (Inl e, w2) \<Rightarrow> Some (Inl e, w2)
           | Some (Inr complete, w2) \<Rightarrow>
               (if complete
                then findStart_loop_with_B getf isc n c
                       (gen_next_with_B getf isc c (map_option s_id vertex) w2)
                else Some (Inr vertex, w2))))"

text \<open>
  \<open>findStart\<close>.  \<open>start in this.flow.vertices\<close> turns an undefined \<open>start\<close> into the key
  \<open>undefined\<close>.  While the first, synchronous part of \<open>findStart\<close> runs, \<open>this.step\<close>
  has not been assigned, so \<open>get\<close> with a falsy id answers \<open>undefined\<close> there.
  Without an explicit start the first vertex, in key order, that is a stadium or
  whose \<open>uri\<close> equals \<open>start\<close> is resolved, and the generator is driven from it.
\<close>

definition findStart_with_B ::
  "(nat \<Rightarrow> vid option \<Rightarrow> 'e world \<Rightarrow> ('e, 'e step option) outcome) \<Rightarrow> (nat \<Rightarrow> bool \<Rightarrow> 'e world \<Rightarrow> ('e, bool) outcome) \<Rightarrow> nat \<Rightarrow> nat \<Rightarrow> string option \<Rightarrow> 'e world \<Rightarrow> 'e world option" where
  "findStart_with_B getf isc n c start w =
     (case w_heap w c of
        None \<Rightarrow> None
      | Some cv \<Rightarrow>
          (if has_property (f_steps (c_flow cv)) (case start of None \<Rightarrow> ''undefined'' | Some s \<Rightarrow> s)
           then
             (case (if truthy start then getf c start w else Some (Inr None, w)) of
                None \<Rightarrow> None
              | Some (Inl e, w1) \<Rightarrow> Some (upd_conv c (\<lambda>cv. cv\<lparr>c_step := Rejected e\<rparr>) w1)
              | Some (Inr st, w1) \<Rightarrow>
                  (case gen_next_with_B getf isc c None (notify c start st w1) of
                     None \<Rightarrow> None
                   | Some (r, w2) \<Rightarrow> Some w2))
           else
             (case findStart_loop_with_B getf isc n c
                     (gen_start_B c
                        (case find (\<lambda>(i, v). v_type v = Some ''stadium'' \<or> v_uri v = start)
                                (f_steps (c_flow cv)) of
                           None \<Rightarrow> Some (Inr None, w)
                         | Some (i, v) \<Rightarrow>
                             (if truthy (Some i) then getf c (Some i) w else Some (Inr None, w)))) of
                None \<Rightarrow> None
              | Some (Inl e, w1) \<Rightarrow> Some (upd_conv c (\<lambda>cv. cv\<lparr>c_step := Rejected e\<rparr>) w1)
              | Some (Inr None, w1) \<Rightarrow> Some (upd_conv c (\<lambda>cv. cv\<lparr>c_step := Rejected NoStartFound\<rparr>) w1)
              | Some (Inr (Some vertex), w1) \<Rightarrow> Some (notify c (Some ''start'') (Some vertex) w1))))"

text \<open>The exported \<open>conversation\<close>: a \<open>src\<close> in the props is read into \<open>flow\<close> first; then
  the constructor with its type check.\<close>

definition read_flow :: "'e props \<Rightarrow> 'e world \<Rightarrow> error + 'e flow option" where
  "read_flow props w =
     (if truthy (p_src props)
      then (case w_files w (the (p_src props)) of
              None \<Rightarrow> Inl (ReadError (the (p_src props)))
            | Some fl \<Rightarrow> Inr (Some fl))
      else Inr (p_flow props))"

definition is_flowchart :: "'e flow option \<Rightarrow> bool" where
  "is_flowchart fl = (case fl of None \<Rightarrow> False | Some f \<Rightarrow> includes_str (f_type f) ''flowchart'')"

primrec conversation_B :: "nat \<Rightarrow> 'e props \<Rightarrow> 'e world \<Rightarrow> ('e, nat) outcome" where
  "conversation_B 0 = (\<lambda>props w.
     (case read_flow props w of
        Inl e \<Rightarrow> Some (Inl e, w)
      | Inr fl \<Rightarrow> (if \<not> is_flowchart fl then Some (Inl GraphTypeMismatch, w) else None)))"
| "conversation_B (Suc n) = (\<lambda>props w.
     (case read_flow props w of
        Inl e \<Rightarrow> Some (Inl e, w)
      | Inr fl \<Rightarrow>
          (if \<not> is_flowchart fl then Some (Inl GraphTypeMismatch, w)
           else
             (case new_conversation (the fl) props w of
                (c, w1) \<Rightarrow>
                  (case findStart_with_B (get_with_B (conversation_B n)) (isComplete_B n) n c
                          (p_start props) w1 of
                     None \<Rightarrow> None
                   | Some w2 \<Rightarrow> Some (Inr c, w2))))))"

definition get_B :: "nat \<Rightarrow> nat \<Rightarrow> vid option \<Rightarrow> 'e world \<Rightarrow> ('e, 'e step option) outcome" where
  "get_B n = get_with_B (conversation_B n)"

definition gen_next_B :: "nat \<Rightarrow> nat \<Rightarrow> string option \<Rightarrow> 'e world \<Rightarrow> ('e, 'e step option \<times> bool) outcome" where
  "gen_next_B n = gen_next_with_B (get_B n) (isComplete_B n)"

definition findStart_B :: "nat \<Rightarrow> nat \<Rightarrow> string option \<Rightarrow> 'e world \<Rightarrow> 'e world option" where
  "findStart_B n = findStart_with_B (get_B n) (isComplete_B n) n"

text \<open>\<open>continue\<close>.\<close>

fun continue_B :: "nat \<Rightarrow> nat \<Rightarrow> string option \<Rightarrow> bool \<Rightarrow> 'e world \<Rightarrow> ('e, 'e step option) outcome" where
  "continue_B 0 c i fromChild w = None"
| "continue_B (Suc n) c i fromChild w =
     (case await_step c w of
        None \<Rightarrow> None
      | Some (Inl e, w0) \<Rightarrow> Some (Inl e, w0)
      | Some (Inr st, w0) \<Rightarrow>
          (case (case (if fromChild then None else sub_of st) of
                   None \<Rightarrow> Some (Inr None, w0)
                 | Some k \<Rightarrow> continue_B n k i False w0) of
             None \<Rightarrow> None
           | Some (Inl e, w1) \<Rightarrow> Some (Inl e, w1)
           | Some (Inr (Some s'), w1) \<Rightarrow> Some (Inr (Some s'), w1)
           | Some (Inr None, w1) \<Rightarrow>
               (case gen_next_B n c i w1 of
                  None \<Rightarrow> None
                | Some (Inl e, w2) \<Rightarrow> Some (Inl e, w2)
                | Some (Inr (v, done), w2) \<Rightarrow>
                    (case (if i = None \<and> \<not> done
                           then hook_isComplete_B (isComplete_B n) v w2
                           else Some (Inr False, w2)) of
                       None \<Rightarrow> None
                     | Some (Inl e, w3) \<Rightarrow> Some (Inl e, w3)
                     | Some (Inr complete, w3) \<Rightarrow>
                         (if complete
                          then continue_B n c i fromChild (notify c (Some ''continue'') v w3)
                          else
                            (case w_heap w3 c of
                               None \<Rightarrow> None
                             | Some cv \<Rightarrow>
                                 (if done \<and> c_parent cv \<noteq> None
                                  then continue_B n (the (c_parent cv)) i True w3
                                  else Some (Inr v,
                                         notify c (if done then Some ''done''
                                                   else (case i of None \<Rightarrow> Some ''continue''
                                                                 | Some a \<Rightarrow> Some a))
                                           v w3))))))))"

section \<open>Example flows and stores\<close>

text \<open>The environment of the examples counts, per key, the queries made so far.\<close>

type_synonym counters = "string \<Rightarrow> nat"

definition mk_edge :: "vid \<Rightarrow> vid \<Rightarrow> edge" where
  "mk_edge a b =
     \<lparr>e_start = a, e_end = b, e_type = ''arrow_point'', e_stroke = ''normal'', e_text = ''continue''\<rparr>"

text \<open>A hook whose \<open>isReady\<close> answers \<open>r\<close> and whose \<open>isComplete\<close> answers \<open>done q\<close> at its
  \<open>q\<close>-th query (counted from 0 under the key \<open>k\<close>).\<close>

definition counting_hook :: "string \<Rightarrow> bool \<Rightarrow> (nat \<Rightarrow> bool) \<Rightarrow> counters stephook" where
  "counting_hook k r done =
     \<lparr>hk_isComplete = Some (\<lambda>t e. (Inr (done (e k)), e(k := Suc (e k)))),
      hk_isReady = Some (\<lambda>e. (Inr r, e))\<rparr>"

definition leaf_vertex :: "string option \<Rightarrow> edge list \<Rightarrow> counters stephook \<Rightarrow> counters vertex" where
  "leaf_vertex ty es h =
     Vertex ty es [] (ModuleFn (\<lambda>e. (Inr (Some h), e))) None None None None None"

definition sub_vertex :: "edge list \<Rightarrow> string option \<Rightarrow> counters flow option \<Rightarrow> counters vertex" where
  "sub_vertex es src fl = Vertex (Some ''subroutine'') es [] NoModule None src None None fl"

definition empty_world :: "counters world" where
  "empty_world =
     \<lparr>w_env = (\<lambda>k. 0), w_modules = (\<lambda>m. None), w_files = (\<lambda>f. None), w_heap = (\<lambda>c. None),
      w_arrays = (\<lambda>r. []), w_log = [], w_next = 0\<rparr>"

definition root_props :: "counters flow \<Rightarrow> string option \<Rightarrow> counters props" where
  "root_props fl st =
     \<lparr>p_conversation = None, p_flow = Some fl, p_observers = None, p_src = None, p_start = st\<rparr>"

text \<open>A root conversation with the observers 7 and 8, and one nested in it.\<close>

definition bare_flow :: "counters flow" where
  "bare_flow = Flow ''conversation'' [] [] []"

definition root_conv :: "counters conversation" where
  "root_conv =
     \<lparr>c_flow = bare_flow, c_gen = GenDone, c_observers = 0, c_parent = None,
      c_step = Resolved None, breadcrumbs = []\<rparr>"

definition child_conv :: "counters conversation" where
  "child_conv = root_conv\<lparr>c_parent := Some 0\<rparr>"

definition observed_world :: "counters world" where
  "observed_world =
     empty_world\<lparr>w_heap := (\<lambda>c. None)(0 \<mapsto> root_conv, 1 \<mapsto> child_conv),
                 w_arrays := (\<lambda>r. [])(0 := [7, 8]), w_next := 2\<rparr>"

text \<open>A flow that is not a conversation, and one whose subroutine \<open>next\<close> carries a
  \<open>src\<close> but no embedded flow (what \<open>fromFile\<close> of the parser produces).\<close>

definition barchart_flow :: "counters flow" where
  "barchart_flow = Flow ''barchart'' [] [] []"

definition never_complete :: "string \<Rightarrow> bool \<Rightarrow> counters stephook" where
  "never_complete k r = counting_hook k r (\<lambda>q. False)"

definition src_only_flow :: "counters flow" where
  "src_only_flow =
     Flow ''conversation'' [''start'']
       [(''start'', leaf_vertex (Some ''stadium'') [] (never_complete ''start'' True)),
        (''next'', sub_vertex [] (Some ''next.json'') None)] []"

definition src_only_world :: "counters world" where
  "src_only_world = snd (the (conversation_A 3 (root_props src_only_flow None) empty_world))"

text \<open>Projections used to state what a run leaves behind.\<close>

definition crumb_ids :: "'e world \<Rightarrow> nat \<Rightarrow> vid list" where
  "crumb_ids w c = (case w_heap w c of None \<Rightarrow> [] | Some cv \<Rightarrow> map s_id (breadcrumbs cv))"

definition current_id :: "'e world \<Rightarrow> nat \<Rightarrow> (error + vid option) option" where
  "current_id w c =
     (case w_heap w c of
        None \<Rightarrow> None
      | Some cv \<Rightarrow>
          (case c_step cv of
             Pending \<Rightarrow> None
           | Rejected e \<Rightarrow> Some (Inl e)
           | Resolved s \<Rightarrow> Some (Inr (map_option s_id s))))"

definition result_id :: "('e, 'e step option) outcome \<Rightarrow> (error + vid option) option" where
  "result_id r = map_option (\<lambda>(x, w). map_sum id (map_option s_id) x) r"

definition result_world :: "('e, 'a) outcome \<Rightarrow> 'e world" where
  "result_world r = snd (the r)"

text \<open>A store in which the observer 7 listens on the array 100, and props that pass
  this array to the constructor.\<close>

definition listening_world :: "counters world" where
  "listening_world = empty_world\<lparr>w_arrays := (\<lambda>r. [])(100 := [7])\<rparr>"

definition observed_props :: "counters flow \<Rightarrow> string option \<Rightarrow> counters props" where
  "observed_props fl st =
     \<lparr>p_conversation = None, p_flow = Some fl, p_observers = Some 100, p_src = None, p_start = st\<rparr>"

text \<open>
  A conversation \<open>start \<rightarrow> sub \<rightarrow> next\<close> whose \<open>sub\<close> is a subroutine over \<open>s1 \<rightarrow> s2\<close>.
  \<open>start\<close> is complete from its second query on, \<open>s1\<close> from its third.  After the
  construction and two calls of \<open>continue\<close> the outer conversation sits on \<open>sub\<close> with
  the breadcrumb \<open>start\<close>, the nested one on \<open>s2\<close> with the breadcrumb \<open>s1\<close>.
\<close>

definition inner_flow :: "counters flow" where
  "inner_flow =
     Flow ''conversation'' [''s1'']
       [(''s1'', leaf_vertex (Some ''stadium'') [mk_edge ''s1'' ''s2'']
                   (counting_hook ''s1'' True (\<lambda>q. 2 \<le> q))),
        (''s2'', leaf_vertex None [] (never_complete ''s2'' True))] []"

definition nested_flow :: "counters flow" where
  "nested_flow =
     Flow ''conversation'' [''start'']
       [(''start'', leaf_vertex (Some ''stadium'') [mk_edge ''start'' ''sub'']
                      (counting_hook ''start'' True (\<lambda>q. 1 \<le> q))),
        (''sub'', sub_vertex [mk_edge ''sub'' ''next''] None (Some inner_flow)),
        (''next'', leaf_vertex None [] (never_complete ''next'' True))] []"

definition nested_w0 :: "counters world" where
  "nested_w0 = result_world (conversation_A 6 (observed_props nested_flow None) listening_world)"

definition nested_w1 :: "counters world" where
  "nested_w1 = result_world (continue_A 6 0 None False nested_w0)"

definition nested_w2 :: "counters world" where
  "nested_w2 = result_world (continue_A 6 0 None False nested_w1)"

text \<open>A conversation at address 0 sitting on a leaf step with one breadcrumb.\<close>

definition plain_step :: "vid \<Rightarrow> counters step" where
  "plain_step i = \<lparr>s_id = i, s_to = [], s_from = [], s_hook = Some (StepHook (never_complete i True))\<rparr>"

definition walked_conv :: "counters conversation" where
  "walked_conv =
     \<lparr>c_flow = bare_flow, c_gen = GenSuspended (plain_step ''next''), c_observers = 100,
      c_parent = None, c_step = Resolved (Some (plain_step ''next'')),
      breadcrumbs = [plain_step ''start'']\<rparr>"

definition walked_world :: "counters world" where
  "walked_world = listening_world\<lparr>w_heap := (\<lambda>c. None)(0 \<mapsto> walked_conv), w_next := 1\<rparr>"

text \<open>\<open>view w c\<close>: the ids of the breadcrumbs and of the current step of the
  conversation \<open>c\<close>; \<open>outcome_view\<close>: the id of the step returned, with the view of
  the store left behind.\<close>

definition view :: "'e world \<Rightarrow> nat \<Rightarrow> vid list \<times> (error + vid option) option" where
  "view w c = (crumb_ids w c, current_id w c)"

definition outcome_view ::
  "('e, 'e step option) outcome \<Rightarrow> nat \<Rightarrow> ((error + vid option) \<times> vid list \<times> (error + vid option) option) option" where
  "outcome_view r c = map_option (\<lambda>(x, w). (map_sum id (map_option s_id) x, view w c)) r"

text \<open>
  The same graph for both variants: \<open>start\<close>, complete from its second query on, has
  the outgoing edges to \<open>first\<close> and to \<open>second\<close>, in this order; both are ready and
  never complete.
\<close>

definition both_ready_vertices :: "edge list \<Rightarrow> (vid \<times> counters vertex) list" where
  "both_ready_vertices es =
     [(''start'', leaf_vertex (Some ''stadium'') es (counting_hook ''start'' True (\<lambda>q. 1 \<le> q))),
      (''first'', leaf_vertex None [] (never_complete ''first'' True)),
      (''second'', leaf_vertex None [] (never_complete ''second'' True))]"

definition both_ready_edges :: "edge list" where
  "both_ready_edges = [mk_edge ''start'' ''first'', mk_edge ''start'' ''second'']"

definition both_ready_A :: "counters flow" where
  "both_ready_A = Flow ''conversation'' [''start''] (both_ready_vertices both_ready_edges) []"

definition both_ready_B :: "counters flow" where
  "both_ready_B = Flow ''flowchart'' [] (both_ready_vertices []) both_ready_edges"

definition both_ready_wA :: "counters world" where
  "both_ready_wA = result_world (conversation_A 4 (observed_props both_ready_A None) listening_world)"

definition both_ready_wB :: "counters world" where
  "both_ready_wB = result_world (conversation_B 4 (observed_props both_ready_B None) listening_world)"

definition current_step :: "'e world \<Rightarrow> nat \<Rightarrow> 'e step option" where
  "current_step w c =
     (case w_heap w c of
        None \<Rightarrow> None
      | Some cv \<Rightarrow> (case c_step cv of Resolved s \<Rightarrow> s | _ \<Rightarrow> None))"

text \<open>\<open>continue()\<close> called again and again, as long as it returns a step; the outcome
  is that of the last call.\<close>

primrec repeat_continue_A :: "nat \<Rightarrow> nat \<Rightarrow> nat \<Rightarrow> 'e world \<Rightarrow> ('e, 'e step option) outcome" where
  "repeat_continue_A 0 n c w = continue_A n c None False w"
| "repeat_continue_A (Suc k) n c w =
     (case continue_A n c None False w of
        Some (Inr r, w') \<Rightarrow> repeat_continue_A k n c w'
      | other \<Rightarrow> other)"

primrec repeat_continue_B :: "nat \<Rightarrow> nat \<Rightarrow> nat \<Rightarrow> 'e world \<Rightarrow> ('e, 'e step option) outcome" where
  "repeat_continue_B 0 n c w = continue_B n c None False w"
| "repeat_continue_B (Suc k) n c w =
     (case continue_B n c None False w of
        Some (Inr r, w') \<Rightarrow> repeat_continue_B k n c w'
      | other \<Rightarrow> other)"

text \<open>What a construction leaves behind: the view of the new conversation, the answer
  of its \<open>isReady()\<close> and the notifications sent.\<close>

definition isReady_view ::
  "('e, nat) outcome \<Rightarrow> ((vid list \<times> (error + vid option) option) \<times> (error + bool) option \<times> notification list) option" where
  "isReady_view r =
     (case r of
        None \<Rightarrow> None
      | Some (Inl e, w) \<Rightarrow> None
      | Some (Inr c, w) \<Rightarrow> Some (view w c, map_option fst (isReady c w), w_log w))"

text \<open>The store right after the assignments of the constructor, before \<open>findStart\<close>.\<close>

definition constructed :: "counters flow \<Rightarrow> counters world" where
  "constructed fl = snd (new_conversation fl (observed_props fl None) listening_world)"

text \<open>A conversation \<open>start \<rightarrow> sub\<close> whose subroutine sits on a step \<open>s1\<close> that is never
  complete; the store after the construction and one \<open>continue()\<close>.\<close>

definition idle_inner_flow :: "counters flow" where
  "idle_inner_flow =
     Flow ''conversation'' [''s1'']
       [(''s1'', leaf_vertex (Some ''stadium'') [] (never_complete ''s1'' True))] []"

definition idle_nested_flow :: "counters flow" where
  "idle_nested_flow =
     Flow ''conversation'' [''start'']
       [(''start'', leaf_vertex (Some ''stadium'') [mk_edge ''start'' ''sub'']
                      (counting_hook ''start'' True (\<lambda>q. 1 \<le> q))),
        (''sub'', sub_vertex [] None (Some idle_inner_flow))] []"

definition idle_nested_w :: "counters world" where
  "idle_nested_w =
     result_world (continue_A 6 0 None False
       (result_world (conversation_A 6 (observed_props idle_nested_flow None) listening_world)))"

text \<open>A single step \<open>only\<close> that reports complete at its second query and at no other;
  the store after the construction, \<open>continue()\<close> (which exhausts the walk) and
  \<open>back()\<close>.\<close>

definition revoked_vertices :: "(vid \<times> counters vertex) list" where
  "revoked_vertices =
     [(''only'', leaf_vertex (Some ''stadium'') [] (counting_hook ''only'' True (\<lambda>q. q = 1)))]"

definition revoked_A :: "counters flow" where
  "revoked_A = Flow ''conversation'' [''only''] revoked_vertices []"

definition revoked_B :: "counters flow" where
  "revoked_B = Flow ''flowchart'' [] revoked_vertices []"

definition revoked_wA :: "counters world" where
  "revoked_wA =
     result_world (back_nav 2 0 False (result_world (continue_A 4 0 None False
       (result_world (conversation_A 4 (observed_props revoked_A None) listening_world)))))"

definition revoked_wB :: "counters world" where
  "revoked_wB =
     result_world (back_nav 2 0 False (result_world (continue_B 4 0 None False
       (result_world (conversation_B 4 (observed_props revoked_B None) listening_world)))))"

text \<open>A ready entry \<open>start\<close> beside a vertex \<open>other\<close> that is not ready; an entry that
  is not ready, for both variants; and an entry that is a subroutine without a
  source.\<close>

definition fallback_flow :: "counters flow" where
  "fallback_flow =
     Flow ''conversation'' [''start'']
       [(''start'', leaf_vertex (Some ''stadium'') [] (never_complete ''start'' True)),
        (''other'', leaf_vertex None [] (never_complete ''other'' False))] []"

definition unready_entry_vertices :: "(vid \<times> counters vertex) list" where
  "unready_entry_vertices =
     [(''start'', leaf_vertex (Some ''stadium'') [] (never_complete ''start'' False))]"

definition unready_entry_A :: "counters flow" where
  "unready_entry_A = Flow ''conversation'' [''start''] unready_entry_vertices []"

definition unready_entry_B :: "counters flow" where
  "unready_entry_B = Flow ''flowchart'' [] unready_entry_vertices []"

definition sub_entry_flow :: "counters flow" where
  "sub_entry_flow = Flow ''conversation'' [''sub''] [(''sub'', sub_vertex [] None None)] []"

text \<open>
  The graph \<open>start \<rightarrow> first\<close> for both variants: \<open>start\<close> reports complete at its second
  query and at no other, \<open>first\<close> is ready and never complete.  The stores are those
  after the construction, \<open>continue()\<close> (which advances to \<open>first\<close>) and \<open>back()\<close> (which
  restores \<open>start\<close>).
\<close>

definition stepped_back_vertices :: "edge list \<Rightarrow> (vid \<times> counters vertex) list" where
  "stepped_back_vertices es =
     [(''start'', leaf_vertex (Some ''stadium'') es (counting_hook ''start'' True (\<lambda>q. q = 1))),
      (''first'', leaf_vertex None [] (never_complete ''first'' True))]"

definition stepped_back_A :: "counters flow" where
  "stepped_back_A =
     Flow ''conversation'' [''start''] (stepped_back_vertices [mk_edge ''start'' ''first'']) []"

definition stepped_back_B :: "counters flow" where
  "stepped_back_B = Flow ''flowchart'' [] (stepped_back_vertices []) [mk_edge ''start'' ''first'']"

definition stepped_back_wA :: "counters world" where
  "stepped_back_wA =
     result_world (back_nav 2 0 False (result_world (continue_A 4 0 None False
       (result_world (conversation_A 4 (observed_props stepped_back_A None) listening_world)))))"

definition stepped_back_wB :: "counters world" where
  "stepped_back_wB =
     result_world (back_nav 2 0 False (result_world (continue_B 4 0 None False
       (result_world (conversation_B 4 (observed_props stepped_back_B None) listening_world)))))"

text \<open>The id of the step on which the generator of a conversation is suspended.\<close>

definition suspended_on :: "'e world \<Rightarrow> nat \<Rightarrow> vid option" where
  "suspended_on w c =
     (case w_heap w c of
        None \<Rightarrow> None
      | Some cv \<Rightarrow> (case c_gen cv of GenSuspended s \<Rightarrow> Some (s_id s) | _ \<Rightarrow> None))"

text \<open>A flow whose only entry is named like a property that every object inherits.\<close>

definition inherited_entry_A :: "counters flow" where
  "inherited_entry_A = Flow ''conversation'' [''toString''] unready_entry_vertices []"

section \<open>Invariants of the store\<close>

text \<open>
  Notions for the invariants of the store.  \<open>env_only\<close>: nothing but the hooks'
  environment differs.  \<open>well_allocated\<close>: no object lives at or beyond the next free
  address.  \<open>start_rule\<close>: every notification with the action \<open>start\<close> was sent by a
  conversation without a parent.  \<open>ext w w'\<close>: from a well-allocated \<open>w\<close>, the store
  \<open>w'\<close> is well allocated, keeps every conversation of \<open>w\<close> with its parent and its
  flow, and adds to the notifications only ones that obey the rule.
\<close>

definition env_only :: "'e world \<Rightarrow> 'e world \<Rightarrow> bool" where
  "env_only w w' \<longleftrightarrow> (\<exists>e. w' = w\<lparr>w_env := e\<rparr>)"

definition well_allocated :: "'e world \<Rightarrow> bool" where
  "well_allocated w \<longleftrightarrow> (\<forall>c. w_next w \<le> c \<longrightarrow> w_heap w c = None)"

definition start_entry_ok :: "'e world \<Rightarrow> notification \<Rightarrow> bool" where
  "start_entry_ok w x \<longleftrightarrow>
     (fst (snd (snd x)) = Some ''start'' \<longrightarrow>
        (\<exists>cv. w_heap w (fst x) = Some cv \<and> c_parent cv = None))"

definition start_rule :: "'e world \<Rightarrow> bool" where
  "start_rule w \<longleftrightarrow> (\<forall>x\<in>set (w_log w). start_entry_ok w x)"

definition ext :: "'e world \<Rightarrow> 'e world \<Rightarrow> bool" where
  "ext w w' \<longleftrightarrow>
     (well_allocated w \<longrightarrow>
        well_allocated w' \<and> w_next w \<le> w_next w'
      \<and> (\<forall>c cv. w_heap w c = Some cv \<longrightarrow> (\<exists>cv'. w_heap w' c = Some cv' \<and> c_parent cv' = c_parent cv \<and> c_flow cv' = c_flow cv))
      \<and> (\<exists>new. w_log w' = w_log w @ new \<and> (\<forall>x\<in>set new. start_entry_ok w' x)))"

text \<open>The same for the parameters of the operations: the nested \<open>isComplete\<close>, the
  factory of nested conversations and \<open>get\<close>.\<close>

definition isc_env :: "(nat \<Rightarrow> bool \<Rightarrow> 'e world \<Rightarrow> ('e, bool) outcome) \<Rightarrow> bool" where
  "isc_env isc \<longleftrightarrow> (\<forall>k t w r w'. isc k t w = Some (r, w') \<longrightarrow> env_only w w')"

definition mk_ext :: "('e props \<Rightarrow> 'e world \<Rightarrow> ('e, nat) outcome) \<Rightarrow> bool" where
  "mk_ext mk \<longleftrightarrow> (\<forall>props w r w'. mk props w = Some (r, w') \<longrightarrow> ext w w')"

definition get_ext :: "(nat \<Rightarrow> vid option \<Rightarrow> 'e world \<Rightarrow> ('e, 'e step option) outcome) \<Rightarrow> bool" where
  "get_ext getf \<longleftrightarrow> (\<forall>c i w r w'. getf c i w = Some (r, w') \<longrightarrow> ext w w')"

text \<open>
  The entries of a flow resolved and asked one after the other, from the store \<open>w\<close>
  on, as the loop of \<open>findStart\<close> does it: \<open>entries_unready getf c ids w = Some w'\<close> says
  that every \<open>get\<close> resolves and that the \<open>isReady()\<close> of every step obtained resolves
  false (as in the loop, a missing step, hook or method counts as false), and that
  \<open>w'\<close> is the store left.
\<close>

fun entries_unready ::
  "(nat \<Rightarrow> vid option \<Rightarrow> 'e world \<Rightarrow> ('e, 'e step option) outcome) \<Rightarrow> nat \<Rightarrow> vid list \<Rightarrow> 'e world \<Rightarrow> 'e world option" where
  "entries_unready getf c [] w = Some w"
| "entries_unready getf c (i # rest) w =
     (case getf c (Some i) w of
        None \<Rightarrow> None
      | Some (Inl e, w1) \<Rightarrow> None
      | Some (Inr st, w1) \<Rightarrow>
          (case hook_isReady st w1 of
             None \<Rightarrow> None
           | Some (Inl e, w2) \<Rightarrow> None
           | Some (Inr ready, w2) \<Rightarrow> (if ready then None else entries_unready getf c rest w2)))"

section \<open>Properties\<close>

subsection \<open>Observers\<close>






lemmas example_defs =
  mk_edge_def counting_hook_def never_complete_def leaf_vertex_def sub_vertex_def
  empty_world_def root_props_def

lemmas engine_defs =
  get_A_def get_with_A_def findStart_A_def findStart_with_A_def prime_with_A_def
  gen_next_A_def gen_next_with_A_def
  get_B_def get_with_B_def findStart_B_def findStart_with_B_def gen_next_B_def gen_next_with_B_def
  gen_resume_with_B_def gen_start_B_def gen_yield_def gen_throw_def
  hook_isReady_B_def hook_isComplete_B_def call_isComplete_B_def lacks_isComplete_def
  read_flow_def is_flowchart_def step_of_B_def
  new_conversation_def load_hook_def call_module_def import_module_def step_of_def upd_conv_def
  notify_def await_step_def isReady_def hook_isReady_def truthy_def at_index_def sub_of_def
  has_property_def inherited_names_def

text \<open>
  Every call of an observer is made by \<open>notify\<close>.  For a conversation with a parent,
  none of the notifications it adds has the action \<open>start\<close>, whatever action is asked
  for; a conversation without a parent does broadcast \<open>start\<close> to every observer, in
  array order.
\<close>

lemma notify_guard:
  assumes "w_heap w c = Some cv"
  shows "(c_parent cv \<noteq> None \<longrightarrow>
            (\<exists>new. w_log (notify c action st w) = w_log w @ new
                  \<and> (\<forall>x\<in>set new. fst x = c \<and> fst (snd (snd x)) \<noteq> Some ''start'')))
       \<and> (c_parent cv = None \<longrightarrow>
            w_log (notify c (Some ''start'') st w) =
              w_log w @ map (\<lambda>ob. (c, ob, Some ''start'', map_option s_id st))
                            (w_arrays w (c_observers cv)))"
  using assms by (auto simp: notify_def Let_def)

lemma notify_guard_example:
  "w_log (notify 1 (Some ''start'') None observed_world) = []
   \<and> w_log (notify 1 (Some ''back'') None observed_world) =
       [(1, 7, Some ''back'', None), (1, 8, Some ''back'', None)]
   \<and> w_log (notify 0 (Some ''start'') None observed_world) =
       [(0, 7, Some ''start'', None), (0, 8, Some ''start'', None)]"
proof -
  have a: "w_heap observed_world 1 = Some child_conv" and b: "w_heap observed_world 0 = Some root_conv"
    by (simp_all add: observed_world_def)
  from notify_guard[OF a, of "Some ''start''" None]
       notify_guard[OF b, of None None]
  show ?thesis
    by (simp add: observed_world_def child_conv_def root_conv_def empty_world_def notify_def Let_def)
qed

subsection \<open>Construction\<close>

lemma conversation_A_result:
  "conversation_A n props w = Some (r, w') \<Longrightarrow>
     (r = Inl GraphTypeMismatch \<and> w' = w \<and> map_option f_type (p_flow props) \<noteq> Some ''conversation'')
   \<or> (r = Inr (w_next w) \<and> map_option f_type (p_flow props) = Some ''conversation'')"
  by (cases n) (auto simp: new_conversation_def Let_def split: if_splits option.splits)

lemma conversation_B_result:
  "conversation_B n props w = Some (r, w') \<Longrightarrow>
     (\<exists>e. r = Inl e \<and> w' = w \<and> read_flow props w = Inl e)
   \<or> (r = Inl GraphTypeMismatch \<and> w' = w \<and> (\<exists>fl. read_flow props w = Inr fl \<and> \<not> is_flowchart fl))
   \<or> (r = Inr (w_next w) \<and> (\<exists>fl. read_flow props w = Inr fl \<and> is_flowchart fl))"
  by (cases n) (auto simp: new_conversation_def Let_def split: if_splits option.splits sum.splits)

text \<open>
  Claim C7.  A flow whose type does not denote a conversation graph (variant A: the type
  is not \<open>conversation\<close>; variant B: the type does not contain \<open>flowchart\<close>; in both, no
  flow at all) makes the construction fail with \<open>GraphTypeMismatch\<close> and leaves the
  store as it was, so that no instance exists.  With a conversation graph the
  construction, when it returns, returns the new instance and not this error.
\<close>

theorem construction_checks_graph_type:
  "(map_option f_type (p_flow props) \<noteq> Some ''conversation'' \<longrightarrow>
      conversation_A n props w = Some (Inl GraphTypeMismatch, w))
   \<and> (map_option f_type (p_flow props) = Some ''conversation'' \<longrightarrow>
        (\<forall>r w'. conversation_A n props w = Some (r, w') \<longrightarrow> r = Inr (w_next w)))
   \<and> (read_flow props w = Inr fl \<and> \<not> is_flowchart fl \<longrightarrow>
        conversation_B n props w = Some (Inl GraphTypeMismatch, w))
   \<and> (read_flow props w = Inr fl \<and> is_flowchart fl \<longrightarrow>
        (\<forall>r w'. conversation_B n props w = Some (r, w') \<longrightarrow> r = Inr (w_next w)))"
proof (intro conjI impI allI)
  assume "map_option f_type (p_flow props) \<noteq> Some ''conversation''"
  then show "conversation_A n props w = Some (Inl GraphTypeMismatch, w)"
    by (cases n) auto
next
  fix r w'
  assume "map_option f_type (p_flow props) = Some ''conversation''"
    and "conversation_A n props w = Some (r, w')"
  then show "r = Inr (w_next w)"
    using conversation_A_result[of n props w r w'] by auto
next
  assume "read_flow props w = Inr fl \<and> \<not> is_flowchart fl"
  then show "conversation_B n props w = Some (Inl GraphTypeMismatch, w)"
    by (cases n) auto
next
  fix r w'
  assume "read_flow props w = Inr fl \<and> is_flowchart fl"
    and "conversation_B n props w = Some (r, w')"
  then show "r = Inr (w_next w)"
    using conversation_B_result[of n props w r w'] by auto
qed

theorem construction_checks_graph_type_witness:
  "conversation_A 3 (root_props barchart_flow None) empty_world = Some (Inl GraphTypeMismatch, empty_world)
   \<and> conversation_B 3 (root_props barchart_flow None) empty_world = Some (Inl GraphTypeMismatch, empty_world)
   \<and> map_option fst (conversation_A 3 (root_props src_only_flow None) empty_world) = Some (Inr 0)"
proof -
  have a: "map_option f_type (p_flow (root_props barchart_flow None)) \<noteq> Some ''conversation''"
    by (simp add: root_props_def barchart_flow_def)
  have b: "read_flow (root_props barchart_flow None) empty_world = Inr (Some barchart_flow)
           \<and> \<not> is_flowchart (Some barchart_flow)"
    by (simp add: root_props_def barchart_flow_def read_flow_def is_flowchart_def truthy_def)
  have c: "map_option f_type (p_flow (root_props src_only_flow None)) = Some ''conversation''"
    by (simp add: root_props_def src_only_flow_def)
  have d: "conversation_A 3 (root_props src_only_flow None) empty_world \<noteq> None"
    by (simp add: eval_nat_numeral src_only_flow_def example_defs engine_defs)
  from construction_checks_graph_type[of "root_props barchart_flow None" 3 empty_world "Some barchart_flow"]
       construction_checks_graph_type[of "root_props src_only_flow None" 3 empty_world "Some barchart_flow"]
       a b c d
  show ?thesis by (auto simp: empty_world_def)
qed

subsection \<open>Resolving a subroutine\<close>

text \<open>
  Claim C4, as the code has it.  For a subroutine vertex, \<open>get\<close> fails with
  \<open>MissingSubroutineSource\<close> in variant A exactly when the vertex has no embedded flow
  (\<open>src\<close> is not looked at), and in variant B exactly when it has neither an embedded
  flow nor a non-empty \<open>src\<close>.
\<close>

theorem subroutine_source_check:
  assumes "w_heap w c = Some cv" and "map_of (f_steps (c_flow cv)) i = Some v"
    and "v_type v = Some ''subroutine''" and "i \<noteq> []"
  shows "((\<exists>w'. get_A n c (Some i) w = Some (Inl (MissingSubroutineSource i), w')) \<longleftrightarrow> v_flow v = None)
       \<and> ((\<exists>w'. get_B n c (Some i) w = Some (Inl (MissingSubroutineSource i), w'))
            \<longleftrightarrow> (\<not> truthy (v_src v) \<and> v_flow v = None))"
proof -
  have A: "(\<exists>w'. get_A n c (Some i) w = Some (Inl (MissingSubroutineSource i), w')) \<longleftrightarrow> v_flow v = None"
    using assms
    by (auto simp: get_A_def get_with_A_def truthy_def
             split: option.splits sum.splits prod.splits dest: conversation_A_result)
  have B: "(\<exists>w'. get_B n c (Some i) w = Some (Inl (MissingSubroutineSource i), w'))
            \<longleftrightarrow> (\<not> truthy (v_src v) \<and> v_flow v = None)"
    using assms
    by (auto simp: get_B_def get_with_B_def truthy_def read_flow_def
             split: option.splits sum.splits prod.splits dest!: conversation_B_result)
  from A B show ?thesis by blast
qed

theorem subroutine_source_check_witness:
  "get_A 1 0 (Some ''next'') src_only_world = Some (Inl (MissingSubroutineSource ''next''), src_only_world)"
proof -
  have "\<exists>cv. w_heap src_only_world 0 = Some cv \<and> c_flow cv = src_only_flow"
    by (simp add: src_only_world_def eval_nat_numeral src_only_flow_def example_defs engine_defs)
  then obtain cv where cv: "w_heap src_only_world 0 = Some cv" and fl: "c_flow cv = src_only_flow"
    by blast
  have b: "map_of (f_steps (c_flow cv)) ''next'' = Some (sub_vertex [] (Some ''next.json'') None)"
    by (simp add: fl src_only_flow_def)
  have c: "v_type (sub_vertex [] (Some ''next.json'') None) = Some ''subroutine''"
    and d: "v_flow (sub_vertex [] (Some ''next.json'') None) = None"
    by (simp_all add: sub_vertex_def)
  have e: "''next'' \<noteq> []" by simp
  from subroutine_source_check[OF cv b c e, of 1] d
  obtain w' where w': "get_A 1 0 (Some ''next'') src_only_world = Some (Inl (MissingSubroutineSource ''next''), w')"
    by blast
  then have "w' = src_only_world"
    using cv b c d by (simp add: get_A_def get_with_A_def truthy_def)
  with w' show ?thesis by simp
qed

text \<open>Claim C4 as stated fails in variant A: a subroutine with a \<open>src\<close> and no embedded
  flow is refused with \<open>MissingSubroutineSource\<close>.\<close>

theorem subroutine_src_only_counterexample:
  "v_src (the (map_of (f_steps src_only_flow) ''next'')) = Some ''next.json''
   \<and> map_option fst (get_A 1 0 (Some ''next'') src_only_world) =
       Some (Inl (MissingSubroutineSource ''next''))"
  by (simp add: src_only_world_def eval_nat_numeral src_only_flow_def example_defs engine_defs)

lemmas run_defs =
  crumb_ids_def current_id_def result_id_def result_world_def listening_world_def observed_props_def
  view_def outcome_view_def

subsection \<open>\<open>back\<close>\<close>

text \<open>
  Claim C6, as the code has it.  When the current step's hook is not a nested
  conversation (or the call comes from that child): with breadcrumbs, \<open>back\<close> removes
  the most recent one, makes it the current step and calls every observer with the
  action \<open>back\<close>; with no breadcrumbs and no parent it returns \<open>undefined\<close> and changes
  nothing.
\<close>

theorem back_pops_latest_breadcrumb:
  assumes "w_heap w c = Some cv" and "c_step cv = Resolved st"
    and "fromChild \<or> sub_of st = None"
  shows "(breadcrumbs cv \<noteq> [] \<longrightarrow>
            back_nav (Suc n) c fromChild w =
              Some (Inr (Some (last (breadcrumbs cv))),
                    w\<lparr>w_log := w_log w @
                          map (\<lambda>ob. (c, ob, Some ''back'', Some (s_id (last (breadcrumbs cv)))))
                              (w_arrays w (c_observers cv)),
                      w_heap := (w_heap w)(c \<mapsto>
                          cv\<lparr>breadcrumbs := butlast (breadcrumbs cv),
                             c_step := Resolved (Some (last (breadcrumbs cv)))\<rparr>)\<rparr>))
       \<and> (breadcrumbs cv = [] \<and> c_parent cv = None \<longrightarrow>
            back_nav (Suc n) c fromChild w = Some (Inr None, w))"
  using assms by (auto simp: await_step_def notify_def Let_def)

theorem back_pops_latest_breadcrumb_witness:
  "result_id (back_nav (Suc 0) 0 False walked_world) = Some (Inr (Some ''start''))
   \<and> crumb_ids (result_world (back_nav (Suc 0) 0 False walked_world)) 0 = []
   \<and> current_id (result_world (back_nav (Suc 0) 0 False walked_world)) 0 = Some (Inr (Some ''start''))
   \<and> w_log (result_world (back_nav (Suc 0) 0 False walked_world)) = [(0, 7, Some ''back'', Some ''start'')]"
proof -
  have a: "w_heap walked_world 0 = Some walked_conv"
    by (simp add: walked_world_def)
  have b: "c_step walked_conv = Resolved (Some (plain_step ''next''))"
    by (simp add: walked_conv_def)
  have c: "False \<or> sub_of (Some (plain_step ''next'')) = None"
    by (simp add: sub_of_def plain_step_def)
  have d: "breadcrumbs walked_conv \<noteq> []"
    by (simp add: walked_conv_def)
  from back_pops_latest_breadcrumb[OF a b c, of 0] d
  have "back_nav (Suc 0) 0 False walked_world =
      Some (Inr (Some (last (breadcrumbs walked_conv))),
            walked_world\<lparr>w_log := w_log walked_world @
                map (\<lambda>ob. (0, ob, Some ''back'', Some (s_id (last (breadcrumbs walked_conv)))))
                    (w_arrays walked_world (c_observers walked_conv)),
              w_heap := (w_heap walked_world)(0 \<mapsto>
                walked_conv\<lparr>breadcrumbs := butlast (breadcrumbs walked_conv),
                  c_step := Resolved (Some (last (breadcrumbs walked_conv)))\<rparr>)\<rparr>)"
    by blast
  then show ?thesis
    by (simp add: walked_world_def walked_conv_def plain_step_def run_defs empty_world_def)
qed

text \<open>Claim C6 as stated fails when the current step is a subroutine: the outer
  conversation has the breadcrumb \<open>start\<close>, and \<open>back\<close> is answered by the nested
  conversation, which pops its own breadcrumb \<open>s1\<close>; the outer breadcrumbs and the
  outer current step stay as they were.\<close>

theorem back_in_subroutine_counterexample:
  "(let w = nested_w2 in (view w 0, outcome_view (back_nav 3 0 False w) 0)) =
     (([''start''], Some (Inr (Some ''sub''))),
      Some (Inr (Some ''s1''), [''start''], Some (Inr (Some ''sub''))))"
  by (simp add: nested_w2_def nested_w1_def nested_w0_def inner_flow_def nested_flow_def
        eval_nat_numeral Let_def run_defs example_defs engine_defs)

lemmas both_ready_defs =
  both_ready_vertices_def both_ready_edges_def both_ready_A_def both_ready_B_def
  both_ready_wA_def both_ready_wB_def current_step_def

subsection \<open>The scan of the outgoing edges\<close>

lemma hook_isReady_None [simp]: "hook_isReady None w = Some (Inr False, w)"
  by (simp add: hook_isReady_def)

lemma find_app: "find P (xs @ ys) = (case find P xs of None \<Rightarrow> find P ys | Some x \<Rightarrow> Some x)"
  by (induction xs) auto

text \<open>Variant A: when the scan answers no step, every candidate was resolved and
  reported not ready.\<close>

lemma scan_with_A_none:
  "scan_with_A getf c es w = Some (Inr None, w') \<Longrightarrow> e \<in> set es \<Longrightarrow>
   \<exists>w1 w2 cand w3. getf c (Some (e_end e)) w1 = Some (Inr cand, w2)
      \<and> hook_isReady cand w2 = Some (Inr False, w3)"
proof (induction es arbitrary: w)
  case Nil
  then show ?case by simp
next
  case (Cons x xs)
  from Cons.prems(1) obtain cand w1 w2 where
    g: "getf c (Some (e_end x)) w = Some (Inr cand, w1)" and
    r: "hook_isReady cand w1 = Some (Inr False, w2)" and
    rest: "scan_with_A getf c xs w2 = Some (Inr None, w')"
    by (auto split: option.splits sum.splits prod.splits if_splits)
  show ?case
  proof (cases "e = x")
    case True
    then show ?thesis using g r by blast
  next
    case False
    then have "e \<in> set xs" using Cons.prems(2) by simp
    from Cons.IH[OF rest this] show ?thesis .
  qed
qed

text \<open>Variant A: the step the scan answers is the candidate of an edge that reported
  ready at its turn, after the scan of the edges declared before it had found none
  ready; the edges declared after it are not looked at.\<close>

lemma scan_with_A_first:
  "scan_with_A getf c es w = Some (Inr (Some s), w') \<Longrightarrow>
   \<exists>pre e post w1 w2. es = pre @ e # post
      \<and> scan_with_A getf c pre w = Some (Inr None, w1)
      \<and> getf c (Some (e_end e)) w1 = Some (Inr (Some s), w2)
      \<and> hook_isReady (Some s) w2 = Some (Inr True, w')"
proof (induction es arbitrary: w)
  case Nil
  then show ?case by simp
next
  case (Cons x xs)
  from Cons.prems obtain cand w1 w2 ready where
    g: "getf c (Some (e_end x)) w = Some (Inr cand, w1)" and
    r: "hook_isReady cand w1 = Some (Inr ready, w2)" and
    rest: "if ready then cand = Some s \<and> w2 = w'
           else scan_with_A getf c xs w2 = Some (Inr (Some s), w')"
    by (auto split: option.splits sum.splits prod.splits if_splits)
  show ?case
  proof (cases ready)
    case True
    with rest g r have "x # xs = [] @ x # xs \<and> scan_with_A getf c [] w = Some (Inr None, w)
      \<and> getf c (Some (e_end x)) w = Some (Inr (Some s), w1)
      \<and> hook_isReady (Some s) w1 = Some (Inr True, w')"
      by simp
    then show ?thesis by blast
  next
    case False
    with rest have "scan_with_A getf c xs w2 = Some (Inr (Some s), w')" by simp
    from Cons.IH[OF this] obtain pre e post v1 v2 where
      "xs = pre @ e # post" "scan_with_A getf c pre w2 = Some (Inr None, v1)"
      "getf c (Some (e_end e)) v1 = Some (Inr (Some s), v2)"
      "hook_isReady (Some s) v2 = Some (Inr True, w')"
      by blast
    moreover have "scan_with_A getf c (x # pre) w = Some (Inr None, v1)"
      using g r False calculation(2) by simp
    ultimately have "x # xs = (x # pre) @ e # post
      \<and> scan_with_A getf c (x # pre) w = Some (Inr None, v1)
      \<and> getf c (Some (e_end e)) v1 = Some (Inr (Some s), v2)
      \<and> hook_isReady (Some s) v2 = Some (Inr True, w')"
      by simp
    then show ?thesis by blast
  qed
qed

text \<open>With candidates whose resolution and readiness do not depend on the store, the
  scan of variant A answers the first ready candidate in declaration order, and the
  scan of variant B the last one.\<close>

lemma scan_with_A_pure:
  assumes "\<And>v w. getf c (Some v) w = Some (Inr (res v), w)"
    and "\<And>v w. hook_isReady (res v) w = Some (Inr (rdy v), w)"
  shows "scan_with_A getf c es w =
     Some (Inr (case find (\<lambda>e. rdy (e_end e)) es of None \<Rightarrow> None | Some e \<Rightarrow> res (e_end e)), w)"
  by (induction es) (simp_all add: assms)

lemma scan_with_B_pure:
  assumes "\<And>v w. getf c (Some v) w = Some (Inr (res v), w)"
    and "\<And>v w. hook_isReady_B (res v) w = Some (Inr (rdy v), w)"
  shows "scan_with_B getf c es nx w =
     Some (Inr (case find (\<lambda>e. rdy (e_end e)) (rev es) of None \<Rightarrow> nx | Some e \<Rightarrow> res (e_end e)), w)"
proof (induction es arbitrary: nx)
  case Nil
  then show ?case by simp
next
  case (Cons x xs)
  show ?case
    by (simp add: assms Cons.IH find_app split: option.splits)
qed

text \<open>
  Claim C1 on the code.  From the completed \<open>start\<close>, whose edges lead to \<open>first\<close> and
  then to \<open>second\<close>, both ready, \<open>continue()\<close> of variant B lands on \<open>second\<close>, the
  candidate declared later; \<open>continue()\<close> of variant A lands on \<open>first\<close>.
\<close>

theorem advance_first_ready_variants:
  "outcome_view (continue_B 4 0 None False both_ready_wB) 0 =
     Some (Inr (Some ''second''), [''start''], Some (Inr (Some ''second'')))
   \<and> outcome_view (continue_A 4 0 None False both_ready_wA) 0 =
     Some (Inr (Some ''first''), [''start''], Some (Inr (Some ''first'')))"
  by (simp add: both_ready_defs eval_nat_numeral Let_def run_defs example_defs engine_defs)

subsection \<open>\<open>isComplete\<close>\<close>

lemma promise_all_Inr: "promise_all rs = Inr bs \<Longrightarrow> rs = map Inr bs"
proof (induction rs arbitrary: bs)
  case Nil
  then show ?case by simp
next
  case (Cons r rs)
  then show ?case by (cases r) (auto split: sum.splits)
qed

lemma map_isComplete_A_length:
  "map_isComplete_A n sts t w = Some (rs, w') \<Longrightarrow> length rs = length sts"
proof (induction n arbitrary: sts rs w)
  case 0
  then show ?case by simp
next
  case (Suc n)
  then show ?case
    by (cases sts) (auto split: option.splits prod.splits)
qed

text \<open>Variant A: the answer is the conjunction of the individual reports of the
  current step and of every breadcrumb, each queried anew.\<close>

lemma isComplete_A_conjunction:
  assumes "isComplete_A (Suc n) c t w = Some (Inr b, w')"
  shows "\<exists>cv cur bs. w_heap w c = Some cv \<and> c_step cv = Resolved cur
      \<and> map_isComplete_A n (cur # map Some (breadcrumbs cv)) t w = Some (map Inr bs, w')
      \<and> length bs = Suc (length (breadcrumbs cv))
      \<and> b = (\<forall>x\<in>set bs. x)"
proof -
  from assms obtain cv cur rs bs where
    cv: "w_heap w c = Some cv" and cur: "c_step cv = Resolved cur" and
    m: "map_isComplete_A n (cur # map Some (breadcrumbs cv)) t w = Some (rs, w')" and
    p: "promise_all rs = Inr bs" and b: "b = (\<not> list_ex (\<lambda>pass. \<not> pass) bs)"
    by (auto simp: await_step_def split: option.splits promise.splits sum.splits prod.splits)
  from p have rs: "rs = map Inr bs" by (rule promise_all_Inr)
  from map_isComplete_A_length[OF m] rs have "length bs = Suc (length (breadcrumbs cv))" by simp
  moreover from b have "b = (\<forall>x\<in>set bs. x)" by (simp add: list_ex_iff)
  ultimately show ?thesis using cv cur m rs by blast
qed

text \<open>Variant B: whenever \<open>isComplete\<close> resolves, it resolves to true.\<close>

lemma isComplete_B_true: "isComplete_B n c t w = Some (Inr b, w') \<Longrightarrow> b"
  by (cases n) (auto split: option.splits sum.splits prod.splits)

text \<open>
  Claim C2 on the code.  After one advance the conversation sits on a step that
  reports not complete, with the breadcrumb \<open>start\<close>.  \<open>isComplete()\<close> of variant B
  answers true all the same; \<open>isComplete()\<close> of variant A answers false.
\<close>

theorem isComplete_history_variants:
  "(let w = result_world (continue_B 4 0 None False both_ready_wB) in
      (view w 0, map_option fst (hook_isComplete_B (isComplete_B 2) (current_step w 0) w),
       map_option fst (isComplete_B 3 0 False w)))
     = (([''start''], Some (Inr (Some ''second''))), Some (Inr False), Some (Inr True))
   \<and> (let w = result_world (continue_A 4 0 None False both_ready_wA) in
      (view w 0, map_option fst (hook_isComplete_A 2 (current_step w 0) None w),
       map_option fst (isComplete_A 4 0 False w)))
     = (([''start''], Some (Inr (Some ''first''))), Some (Inr (Some False)), Some (Inr False))"
  by (simp add: both_ready_defs eval_nat_numeral Let_def run_defs example_defs engine_defs)

lemmas scenario_defs =
  idle_inner_flow_def idle_nested_flow_def idle_nested_w_def revoked_vertices_def revoked_A_def
  revoked_B_def revoked_wA_def revoked_wB_def fallback_flow_def unready_entry_vertices_def
  unready_entry_A_def unready_entry_B_def sub_entry_flow_def isReady_view_def constructed_def

subsection \<open>The start\<close>

lemma hook_isReady_heap: "hook_isReady st w = Some (r, w') \<Longrightarrow> w_heap w' = w_heap w"
  by (auto simp: hook_isReady_def isReady_def await_step_def
           split: option.splits hook.splits prod.splits promise.splits)

lemma explicit_start_A:
  assumes "i \<noteq> []"
    and "get_A (Suc n) c (Some i) w = Some (Inr (Some s), w1)"
    and "w_heap w1 c = Some cv1"
    and "hook_isReady (Some s) w1 = Some (Inr True, w2)"
  shows "\<exists>w'. findStart_A (Suc n) c (Some i) w = Some w' \<and> current_step w' c = Some s
           \<and> isReady c w' = Some (Inr True, w')"
proof -
  from hook_isReady_heap[OF assms(4)] have h2: "w_heap w2 c = Some cv1"
    using assms(3) by simp
  have loop: "findStart_loop_with_A (get_A (Suc n)) (Suc n) c (Some s) 0 w1 = Some (Inr (Some s), w2)"
    using assms(3,4) by simp
  define w' where "w' = notify c (if Some (s_id s) = Some i then Some i else Some ''start'') (Some s) w2"
  have fs: "findStart_A (Suc n) c (Some i) w = Some w'"
    using assms(1,2) loop by (simp add: findStart_A_def findStart_with_A_def truthy_def w'_def)
  have st: "w_heap w' c = Some (cv1\<lparr>c_step := Resolved (Some s)\<rparr>)"
    using h2 by (simp add: w'_def notify_def Let_def)
  then have "current_step w' c = Some s" and "isReady c w' = Some (Inr True, w')"
    by (simp_all add: current_step_def isReady_def await_step_def)
  with fs show ?thesis by blast
qed

lemma explicit_start_B:
  assumes "i \<noteq> []"
    and "w_heap w c = Some cv" and "map_of (f_steps (c_flow cv)) i \<noteq> None"
    and "get_B n c (Some i) w = Some (Inr (Some s), w1)"
    and "w_heap w1 c = Some cv1" and "c_gen cv1 = GenCreated"
  shows "\<exists>w'. findStart_B n c (Some i) w = Some w' \<and> current_step w' c = Some s
           \<and> isReady c w' = Some (Inr True, w')"
proof -
  define w2 where "w2 = notify c (Some i) (Some s) w1"
  have h2: "w_heap w2 c = Some (cv1\<lparr>c_step := Resolved (Some s)\<rparr>)"
    using assms(5) by (simp add: w2_def notify_def Let_def)
  define w' where "w' = upd_conv c (\<lambda>cv. cv\<lparr>c_gen := GenSuspended s\<rparr>) w2"
  have g: "gen_next_with_B (get_B n) (isComplete_B n) c None w2 = Some (Inr (Some s, False), w')"
    using h2 assms(6)
    by (simp add: gen_next_with_B_def gen_start_B_def await_step_def gen_yield_def w'_def)
  have fs: "findStart_B n c (Some i) w = Some w'"
    using assms(1-4) g
    by (auto simp: findStart_B_def findStart_with_B_def truthy_def w2_def has_property_def)
  have "w_heap w' c = Some (cv1\<lparr>c_step := Resolved (Some s), c_gen := GenSuspended s\<rparr>)"
    using h2 by (simp add: w'_def upd_conv_def)
  then have "current_step w' c = Some s" and "isReady c w' = Some (Inr True, w')"
    by (simp_all add: current_step_def isReady_def await_step_def)
  with fs show ?thesis by blast
qed

text \<open>
  Claim C3, as the code has it.  An explicit start id that names a vertex whose
  resolution succeeds is adopted as the current step, after which \<open>isReady()\<close> resolves
  true: in variant B whatever its readiness (its \<open>isReady\<close> is not even asked), in
  variant A when its \<open>isReady()\<close> resolves true.
\<close>

theorem explicit_start_adoption:
  "(i \<noteq> [] \<and> get_A (Suc n) c (Some i) w = Some (Inr (Some s), w1) \<and> w_heap w1 c = Some cv1
      \<and> hook_isReady (Some s) w1 = Some (Inr True, w2)
    \<longrightarrow> (\<exists>w'. findStart_A (Suc n) c (Some i) w = Some w' \<and> current_step w' c = Some s
             \<and> isReady c w' = Some (Inr True, w')))
   \<and> (i \<noteq> [] \<and> w_heap w c = Some cv \<and> map_of (f_steps (c_flow cv)) i \<noteq> None
      \<and> get_B n c (Some i) w = Some (Inr (Some s), w1) \<and> w_heap w1 c = Some cv1
      \<and> c_gen cv1 = GenCreated
    \<longrightarrow> (\<exists>w'. findStart_B n c (Some i) w = Some w' \<and> current_step w' c = Some s
             \<and> isReady c w' = Some (Inr True, w')))"
  using explicit_start_A[of i n c w s w1 cv1 w2] explicit_start_B[of i w c cv n s w1 cv1]
  by blast

theorem explicit_start_adoption_witness:
  "(\<exists>w'. findStart_A (Suc 0) 0 (Some ''second'') (constructed both_ready_A) = Some w'
        \<and> current_id w' 0 = Some (Inr (Some ''second''))
        \<and> isReady 0 w' = Some (Inr True, w'))
   \<and> (\<exists>w'. findStart_B 0 0 (Some ''start'') (constructed unready_entry_B) = Some w'
        \<and> current_id w' 0 = Some (Inr (Some ''start''))
        \<and> isReady 0 w' = Some (Inr True, w'))"
proof -
  have "\<exists>s w1 cv1 w2. get_A (Suc 0) 0 (Some ''second'') (constructed both_ready_A) = Some (Inr (Some s), w1)
      \<and> w_heap w1 0 = Some cv1 \<and> hook_isReady (Some s) w1 = Some (Inr True, w2) \<and> s_id s = ''second''"
    by (simp add: both_ready_defs scenario_defs run_defs example_defs engine_defs)
  then obtain s w1 cv1 w2 where
    a: "get_A (Suc 0) 0 (Some ''second'') (constructed both_ready_A) = Some (Inr (Some s), w1)"
      "w_heap w1 0 = Some cv1" "hook_isReady (Some s) w1 = Some (Inr True, w2)" and
    ida: "s_id s = ''second''"
    by blast
  have ne: "''second'' \<noteq> []" "''start'' \<noteq> []" by simp_all
  from explicit_start_adoption[where i="''second''" and n=0 and c=0
      and w="constructed both_ready_A" and s=s and ?w1.0=w1 and ?cv1.0=cv1 and ?w2.0=w2] a ne
  obtain w' where A: "findStart_A (Suc 0) 0 (Some ''second'') (constructed both_ready_A) = Some w'"
    "current_step w' 0 = Some s" "isReady 0 w' = Some (Inr True, w')"
    by blast
  from A(2) ida have A2: "current_id w' 0 = Some (Inr (Some ''second''))"
    by (auto simp: current_step_def current_id_def split: option.splits promise.splits)
  have "\<exists>cv s w1 cv1. w_heap (constructed unready_entry_B) 0 = Some cv
      \<and> map_of (f_steps (c_flow cv)) ''start'' \<noteq> None
      \<and> get_B 0 0 (Some ''start'') (constructed unready_entry_B) = Some (Inr (Some s), w1)
      \<and> w_heap w1 0 = Some cv1 \<and> c_gen cv1 = GenCreated \<and> s_id s = ''start''"
    by (simp add: both_ready_defs scenario_defs run_defs example_defs engine_defs)
  then obtain cv s' v1 cv1' where
    b: "w_heap (constructed unready_entry_B) 0 = Some cv"
      "map_of (f_steps (c_flow cv)) ''start'' \<noteq> None"
      "get_B 0 0 (Some ''start'') (constructed unready_entry_B) = Some (Inr (Some s'), v1)"
      "w_heap v1 0 = Some cv1'" "c_gen cv1' = GenCreated" and
    idb: "s_id s' = ''start''"
    by blast
  from explicit_start_adoption[where i="''start''" and n=0 and c=0
      and w="constructed unready_entry_B" and s=s' and ?w1.0=v1 and ?cv1.0=cv1' and cv=cv] b ne
  obtain v' where B: "findStart_B 0 0 (Some ''start'') (constructed unready_entry_B) = Some v'"
    "current_step v' 0 = Some s'" "isReady 0 v' = Some (Inr True, v')"
    by blast
  from B(2) idb have B2: "current_id v' 0 = Some (Inr (Some ''start''))"
    by (auto simp: current_step_def current_id_def split: option.splits promise.splits)
  from A(1,3) A2 B(1,3) B2 show ?thesis by blast
qed

text \<open>Claim C3 as stated fails in variant A: the explicit start \<open>other\<close> names a vertex
  that is not ready, and the conversation starts on the entry \<open>start\<close> instead,
  announced with the action \<open>start\<close>.\<close>

theorem explicit_start_unready_counterexample:
  "isReady_view (conversation_A 4 (observed_props fallback_flow (Some ''other'')) listening_world) =
     Some (([], Some (Inr (Some ''start''))), Some (Inr True), [(0, 7, Some ''start'', Some ''start'')])"
  by (simp add: scenario_defs eval_nat_numeral Let_def run_defs example_defs engine_defs)

subsection \<open>\<open>continue\<close> on a step that is not complete\<close>

lemma continue_idle_A:
  assumes "w_heap w c = Some cv" and "c_step cv = Resolved (Some s)" and "c_gen cv = GenSuspended s"
    and "s_hook s = Some (StepHook h)" and "hk_isComplete h = Some f"
    and "f None (w_env w) = (Inr False, e1)"
  shows "continue_A (Suc (Suc n)) c None False w = Some (Inr (Some s), w\<lparr>w_env := e1\<rparr>)"
proof -
  have q: "hook_isComplete_A (Suc n) (Some s) None w = Some (Inr (Some False), w\<lparr>w_env := e1\<rparr>)"
    using assms(4-6) by simp
  have "cv\<lparr>c_gen := GenSuspended s\<rparr> = cv" using assms(3) by simp
  then have u: "upd_conv c (\<lambda>cv. cv\<lparr>c_gen := GenSuspended s\<rparr>) (w\<lparr>w_env := e1\<rparr>) = w\<lparr>w_env := e1\<rparr>"
    using assms(1) by (simp add: upd_conv_def map_upd_triv)
  have g: "gen_next_A (Suc n) c None w = Some (Inr (Some s, False), w\<lparr>w_env := e1\<rparr>)"
    using assms(1,3) q u by (simp add: gen_next_A_def gen_next_with_A_def)
  show ?thesis
    using assms(1,2,4) g by (simp add: await_step_def sub_of_def)
qed

lemma continue_idle_B:
  assumes "w_heap w c = Some cv" and "c_step cv = Resolved (Some s)" and "c_gen cv = GenSuspended s0"
    and "s_hook s = Some (StepHook h)" and "hk_isComplete h = Some f"
    and "f None (w_env w) = (Inr False, e1)" and "f None e1 = (Inr False, e2)"
  shows "continue_B (Suc n) c None False w =
     Some (Inr (Some s),
           w\<lparr>w_env := e2,
             w_log := w_log w @ map (\<lambda>ob. (c, ob, Some ''continue'', Some (s_id s)))
                                    (w_arrays w (c_observers cv)),
             w_heap := (w_heap w)(c \<mapsto> cv\<lparr>c_gen := GenSuspended s\<rparr>)\<rparr>)"
proof -
  define w1 where "w1 = (w\<lparr>w_env := e1\<rparr>)\<lparr>w_heap := (w_heap w)(c \<mapsto> cv\<lparr>c_gen := GenSuspended s\<rparr>)\<rparr>"
  have g: "gen_next_B n c None w = Some (Inr (Some s, False), w1)"
    using assms(1-6)
    by (simp add: gen_next_B_def gen_next_with_B_def gen_resume_with_B_def get_B_def get_with_B_def
          truthy_def await_step_def hook_isComplete_B_def call_isComplete_B_def gen_yield_def
          upd_conv_def w1_def)
  have q: "hook_isComplete_B (isComplete_B n) (Some s) w1 = Some (Inr False, w1\<lparr>w_env := e2\<rparr>)"
    using assms(4,5,7) by (simp add: hook_isComplete_B_def call_isComplete_B_def w1_def)
  show ?thesis
    using assms(1,2,4) g q
    by (cases cv) (simp add: await_step_def sub_of_def notify_def Let_def w1_def)
qed

lemma repeat_idle_A:
  assumes "c_step cv = Resolved (Some s)" and "c_gen cv = GenSuspended s"
    and "s_hook s = Some (StepHook h)" and "hk_isComplete h = Some f"
    and "\<And>e. fst (f None e) = Inr False"
  shows "w_heap w c = Some cv \<Longrightarrow>
         \<exists>e'. repeat_continue_A k (Suc (Suc n)) c w = Some (Inr (Some s), w\<lparr>w_env := e'\<rparr>)"
proof (induction k arbitrary: w)
  case 0
  obtain e1 where "f None (w_env w) = (Inr False, e1)"
    using assms(5)[of "w_env w"] by (cases "f None (w_env w)") auto
  from continue_idle_A[OF 0 assms(1-4) this] show ?case by auto
next
  case (Suc k)
  obtain e1 where e1: "f None (w_env w) = (Inr False, e1)"
    using assms(5)[of "w_env w"] by (cases "f None (w_env w)") auto
  have c1: "continue_A (Suc (Suc n)) c None False w = Some (Inr (Some s), w\<lparr>w_env := e1\<rparr>)"
    by (rule continue_idle_A[OF Suc.prems assms(1-4) e1])
  have "w_heap (w\<lparr>w_env := e1\<rparr>) c = Some cv" using Suc.prems by simp
  from Suc.IH[OF this] obtain e' where
    "repeat_continue_A k (Suc (Suc n)) c (w\<lparr>w_env := e1\<rparr>)
       = Some (Inr (Some s), w\<lparr>w_env := e1\<rparr>\<lparr>w_env := e'\<rparr>)"
    by blast
  then show ?case using c1 by auto
qed

lemma repeat_idle_B:
  assumes "c_step cv = Resolved (Some s)"
    and "s_hook s = Some (StepHook h)" and "hk_isComplete h = Some f"
    and "\<And>e. fst (f None e) = Inr False"
  shows "w_heap w c = Some (cv\<lparr>c_gen := GenSuspended s0\<rparr>) \<Longrightarrow>
         \<exists>w'. repeat_continue_B k (Suc n) c w = Some (Inr (Some s), w')
            \<and> w_heap w' c = Some (cv\<lparr>c_gen := GenSuspended s\<rparr>)"
proof (induction k arbitrary: w s0)
  case 0
  obtain e1 where e1: "f None (w_env w) = (Inr False, e1)"
    using assms(4)[of "w_env w"] by (cases "f None (w_env w)") auto
  obtain e2 where e2: "f None e1 = (Inr False, e2)"
    using assms(4)[of e1] by (cases "f None e1") auto
  have "c_step (cv\<lparr>c_gen := GenSuspended s0\<rparr>) = Resolved (Some s)"
    and "c_gen (cv\<lparr>c_gen := GenSuspended s0\<rparr>) = GenSuspended s0"
    using assms(1) by simp_all
  from continue_idle_B[OF 0 this assms(2,3) e1 e2, of n] show ?case by simp
next
  case (Suc k)
  obtain e1 where e1: "f None (w_env w) = (Inr False, e1)"
    using assms(4)[of "w_env w"] by (cases "f None (w_env w)") auto
  obtain e2 where e2: "f None e1 = (Inr False, e2)"
    using assms(4)[of e1] by (cases "f None e1") auto
  have a: "c_step (cv\<lparr>c_gen := GenSuspended s0\<rparr>) = Resolved (Some s)"
    and b: "c_gen (cv\<lparr>c_gen := GenSuspended s0\<rparr>) = GenSuspended s0"
    using assms(1) by simp_all
  from continue_idle_B[OF Suc.prems a b assms(2,3) e1 e2, of n]
  obtain w1 where c1: "continue_B (Suc n) c None False w = Some (Inr (Some s), w1)"
    and h1: "w_heap w1 c = Some (cv\<lparr>c_gen := GenSuspended s\<rparr>)"
    by simp
  from Suc.IH[OF h1] obtain w' where
    "repeat_continue_B k (Suc n) c w1 = Some (Inr (Some s), w')"
    "w_heap w' c = Some (cv\<lparr>c_gen := GenSuspended s\<rparr>)"
    by blast
  then show ?case using c1 by auto
qed

text \<open>
  Two things \<open>continue()\<close> does before or instead of answering with the current step.
  On a subroutine step that reports not complete, the call is answered by the nested
  conversation and returns its step \<open>s1\<close>, not the current step \<open>sub\<close>.  And in the
  flow with the single step \<open>only\<close>, after \<open>continue()\<close> has ended the generator and
  \<open>back()\<close> has restored \<open>only\<close>, which by now reports not complete, \<open>continue()\<close>
  returns \<open>undefined\<close> and leaves no current step, in both variants.
\<close>

lemma continue_delegated_or_ended:
  "(let w = idle_nested_w in
      (view w 0, map_option fst (hook_isComplete_A 4 (current_step w 0) None w),
       outcome_view (continue_A 6 0 None False w) 0))
     = (([''start''], Some (Inr (Some ''sub''))), Some (Inr (Some False)),
        Some (Inr (Some ''s1''), [''start''], Some (Inr (Some ''sub''))))
   \<and> (let w = revoked_wA in
      (view w 0, map_option fst (hook_isComplete_A 4 (current_step w 0) None w),
       outcome_view (continue_A 6 0 None False w) 0))
     = (([], Some (Inr (Some ''only''))), Some (Inr (Some False)), Some (Inr None, [], Some (Inr None)))
   \<and> (let w = revoked_wB in
      (view w 0, map_option fst (hook_isComplete_B (isComplete_B 4) (current_step w 0) w),
       outcome_view (continue_B 6 0 None False w) 0))
     = (([], Some (Inr (Some ''only''))), Some (Inr False), Some (Inr None, [], Some (Inr None)))"
  by (simp add: scenario_defs both_ready_defs eval_nat_numeral Let_def run_defs example_defs engine_defs)

lemmas stepped_back_defs =
  stepped_back_vertices_def stepped_back_A_def stepped_back_B_def stepped_back_wA_def
  stepped_back_wB_def suspended_on_def current_step_def

text \<open>
  Claim C5: \<open>continue()\<close> on a current step that reports not complete returns that
  step and leaves the breadcrumbs alone.  Variant B does so for a leaf step whenever
  its generator is suspended (\<open>continue_idle_B\<close>, \<open>repeat_idle_B\<close>), because the
  generator resolves the current step anew each time it is resumed.  The generator of
  variant A resumes with the step it yielded last (\<open>continue_idle_A\<close> needs the two to
  be the same).  In the graph \<open>start \<rightarrow> first\<close>, after the construction, \<open>continue()\<close> and
  \<open>back()\<close>, the current step is the leaf \<open>start\<close>, it reports not complete, there are
  no breadcrumbs and the generator is suspended on \<open>first\<close>.  There \<open>continue()\<close> of
  variant A returns \<open>first\<close> and makes it the current step, and so does every further
  call; \<open>continue()\<close> of variant B returns \<open>start\<close> and keeps it, again and again.
\<close>

theorem continue_after_back_variants:
  "(let w = stepped_back_wA in
      (view w 0, suspended_on w 0, sub_of (current_step w 0),
       map_option fst (hook_isComplete_A 4 (current_step w 0) None w),
       outcome_view (continue_A 6 0 None False w) 0,
       outcome_view (repeat_continue_A 3 6 0 w) 0))
     = (([], Some (Inr (Some ''start''))), Some ''first'', None, Some (Inr (Some False)),
        Some (Inr (Some ''first''), [], Some (Inr (Some ''first''))),
        Some (Inr (Some ''first''), [], Some (Inr (Some ''first''))))
   \<and> (let w = stepped_back_wB in
      (view w 0, suspended_on w 0, sub_of (current_step w 0),
       map_option fst (hook_isComplete_B (isComplete_B 4) (current_step w 0) w),
       outcome_view (continue_B 6 0 None False w) 0,
       outcome_view (repeat_continue_B 3 6 0 w) 0))
     = (([], Some (Inr (Some ''start''))), Some ''first'', None, Some (Inr False),
        Some (Inr (Some ''start''), [], Some (Inr (Some ''start''))),
        Some (Inr (Some ''start''), [], Some (Inr (Some ''start''))))"
  by (simp add: stepped_back_defs eval_nat_numeral Let_def run_defs example_defs engine_defs)

subsection \<open>Frames: what the operations leave alone\<close>

lemma env_only_refl [simp]: "env_only w w"
  unfolding env_only_def by (rule exI[of _ "w_env w"]) simp

lemma env_only_upd [simp]: "env_only w (w\<lparr>w_env := e\<rparr>)"
  unfolding env_only_def by blast

lemma env_only_trans: "env_only w w1 \<Longrightarrow> env_only w1 w2 \<Longrightarrow> env_only w w2"
  unfolding env_only_def by auto

lemma hook_isReady_env: "hook_isReady st w = Some (r, w') \<Longrightarrow> env_only w w'"
  by (auto simp: hook_isReady_def isReady_def await_step_def
           split: option.splits hook.splits prod.splits promise.splits)

lemma hook_isReady_B_env: "hook_isReady_B st w = Some (r, w') \<Longrightarrow> env_only w w'"
  by (auto simp: hook_isReady_B_def isReady_def await_step_def
           split: option.splits hook.splits prod.splits promise.splits)

lemma isComplete_A_env_all:
  "(\<forall>c t (w :: 'e world) r w'. isComplete_A n c t w = Some (r, w') \<longrightarrow> env_only w w')
 \<and> (\<forall>st t (w :: 'e world) r w'. hook_isComplete_A n st t w = Some (r, w') \<longrightarrow> env_only w w')
 \<and> (\<forall>sts t (w :: 'e world) rs w'. map_isComplete_A n sts t w = Some (rs, w') \<longrightarrow> env_only w w')"
proof (induction n)
  case 0
  show ?case by simp
next
  case (Suc n)
  from Suc have ihc: "\<And>c t (w :: 'e world) r w'. isComplete_A n c t w = Some (r, w') \<Longrightarrow> env_only w w'"
    by blast
  from Suc have ihh: "\<And>st t (w :: 'e world) r w'. hook_isComplete_A n st t w = Some (r, w') \<Longrightarrow> env_only w w'"
    by blast
  from Suc have ihm: "\<And>sts t (w :: 'e world) rs w'. map_isComplete_A n sts t w = Some (rs, w') \<Longrightarrow> env_only w w'"
    by blast
  have a: "\<forall>c t (w :: 'e world) r w'. isComplete_A (Suc n) c t w = Some (r, w') \<longrightarrow> env_only w w'"
    by (auto simp: await_step_def split: option.splits sum.splits prod.splits promise.splits dest: ihm)
  have b: "\<forall>st t (w :: 'e world) r w'. hook_isComplete_A (Suc n) st t w = Some (r, w') \<longrightarrow> env_only w w'"
    by (auto split: option.splits sum.splits prod.splits hook.splits dest: ihc)
  have c: "\<forall>sts t (w :: 'e world) rs w'. map_isComplete_A (Suc n) sts t w = Some (rs, w') \<longrightarrow> env_only w w'"
  proof (intro allI impI)
    fix sts t and w :: "'e world" and rs w'
    assume h: "map_isComplete_A (Suc n) sts t w = Some (rs, w')"
    show "env_only w w'"
    proof (cases sts)
      case Nil
      with h show ?thesis by simp
    next
      case (Cons st rest)
      with h obtain r w1 rs' where "hook_isComplete_A n st (Some t) w = Some (r, w1)"
        "map_isComplete_A n rest t w1 = Some (rs', w')"
        by (auto split: option.splits prod.splits)
      then show ?thesis using ihh ihm env_only_trans by blast
    qed
  qed
  from a b c show ?case by blast
qed

lemma hook_isComplete_A_env: "hook_isComplete_A n st t w = Some (r, w') \<Longrightarrow> env_only w w'"
  using isComplete_A_env_all[of n] by blast

lemma call_isComplete_B_env:
  "isc_env isc \<Longrightarrow> call_isComplete_B isc h t w = Some (r, w') \<Longrightarrow> env_only w w'"
  unfolding isc_env_def
  by (auto simp: call_isComplete_B_def split: hook.splits option.splits prod.splits)

lemma hook_isComplete_B_env:
  "isc_env isc \<Longrightarrow> hook_isComplete_B isc st w = Some (r, w') \<Longrightarrow> env_only w w'"
  by (auto simp: hook_isComplete_B_def split: option.splits dest: call_isComplete_B_env)

lemma map_isComplete_B_env:
  assumes "isc_env isc"
  shows "map_isComplete_B isc sts t w = Some (r, w') \<Longrightarrow> env_only w w'"
proof (induction sts arbitrary: w r)
  case Nil
  then show ?case by simp
next
  case (Cons cur rest)
  show ?case
  proof (cases "s_hook cur")
    case None
    with Cons.prems show ?thesis by simp
  next
    case (Some h)
    show ?thesis
    proof (cases "lacks_isComplete h")
      case True
      with Cons.prems Some show ?thesis by simp
    next
      case False
      with Cons.prems Some obtain x w1 y where
        c: "call_isComplete_B isc h (Some t) w = Some (x, w1)" and
        m: "map_isComplete_B isc rest t w1 = Some (y, w')"
        by (auto split: option.splits prod.splits sum.splits)
      from call_isComplete_B_env[OF assms c] Cons.IH[OF m] show ?thesis
        by (rule env_only_trans)
    qed
  qed
qed

lemma isComplete_B_env: "isc_env (isComplete_B n)"
proof (induction n)
  case 0
  show ?case by (simp add: isc_env_def)
next
  case (Suc n)
  show ?case
    unfolding isc_env_def
  proof (intro allI impI)
    fix c t and w :: "'a world" and r w'
    assume "isComplete_B (Suc n) c t w = Some (r, w')"
    then obtain cv x where "w_heap w c = Some cv"
      "map_isComplete_B (isComplete_B n) (breadcrumbs cv) t w = Some (x, w')"
      by (auto split: option.splits prod.splits sum.splits)
    then show "env_only w w'" using map_isComplete_B_env[OF Suc] by blast
  qed
qed

lemma load_hook_env: "load_hook v w = (r, w') \<Longrightarrow> env_only w w'"
  by (auto simp: load_hook_def call_module_def
           split: module_ref.splits sum.splits option.splits prod.splits)

lemma ext_refl [simp]: "ext w w"
  by (simp add: ext_def)

lemma start_entry_ok_mono:
  assumes "start_entry_ok w x"
    and "\<forall>c cv. w_heap w c = Some cv \<longrightarrow> (\<exists>cv'. w_heap w' c = Some cv' \<and> c_parent cv' = c_parent cv \<and> c_flow cv' = c_flow cv)"
  shows "start_entry_ok w' x"
  using assms unfolding start_entry_ok_def by fastforce

lemma ext_trans:
  assumes "ext w w1" and "ext w1 w2"
  shows "ext w w2"
  unfolding ext_def
proof (intro impI)
  assume wa: "well_allocated w"
  with assms(1) have a1: "well_allocated w1" "w_next w \<le> w_next w1"
    and p1: "\<forall>c cv. w_heap w c = Some cv \<longrightarrow> (\<exists>cv'. w_heap w1 c = Some cv' \<and> c_parent cv' = c_parent cv \<and> c_flow cv' = c_flow cv)"
    and l1: "\<exists>new. w_log w1 = w_log w @ new \<and> (\<forall>x\<in>set new. start_entry_ok w1 x)"
    unfolding ext_def by blast+
  from a1(1) assms(2) have a2: "well_allocated w2" "w_next w1 \<le> w_next w2"
    and p2: "\<forall>c cv. w_heap w1 c = Some cv \<longrightarrow> (\<exists>cv'. w_heap w2 c = Some cv' \<and> c_parent cv' = c_parent cv \<and> c_flow cv' = c_flow cv)"
    and l2: "\<exists>new. w_log w2 = w_log w1 @ new \<and> (\<forall>x\<in>set new. start_entry_ok w2 x)"
    unfolding ext_def by blast+
  from l1 obtain n1 where n1: "w_log w1 = w_log w @ n1" "\<forall>x\<in>set n1. start_entry_ok w1 x" by blast
  from l2 obtain n2 where n2: "w_log w2 = w_log w1 @ n2" "\<forall>x\<in>set n2. start_entry_ok w2 x" by blast
  have "\<forall>x\<in>set n1. start_entry_ok w2 x"
    using n1(2) p2 start_entry_ok_mono by blast
  with n1 n2 have l: "w_log w2 = w_log w @ (n1 @ n2) \<and> (\<forall>x\<in>set (n1 @ n2). start_entry_ok w2 x)"
    by auto
  have p: "\<forall>c cv. w_heap w c = Some cv \<longrightarrow> (\<exists>cv'. w_heap w2 c = Some cv' \<and> c_parent cv' = c_parent cv \<and> c_flow cv' = c_flow cv)"
    using p1 p2 by fastforce
  from a2 a1(2) l p
  show "well_allocated w2 \<and> w_next w \<le> w_next w2
      \<and> (\<forall>c cv. w_heap w c = Some cv \<longrightarrow> (\<exists>cv'. w_heap w2 c = Some cv' \<and> c_parent cv' = c_parent cv \<and> c_flow cv' = c_flow cv))
      \<and> (\<exists>new. w_log w2 = w_log w @ new \<and> (\<forall>x\<in>set new. start_entry_ok w2 x))"
    by (meson le_trans)
qed

lemma ext_env_only: "env_only w w' \<Longrightarrow> ext w w'"
  by (auto simp: env_only_def ext_def well_allocated_def)

lemma ext_upd_conv:
  assumes "\<And>cv. c_parent (f cv) = c_parent cv \<and> c_flow (f cv) = c_flow cv"
  shows "ext w (upd_conv c f w)"
  using assms by (auto simp: ext_def upd_conv_def well_allocated_def split: option.splits)

lemma ext_notify: "ext w (notify c a st w)"
proof (cases "w_heap w c")
  case None
  then show ?thesis by (simp add: notify_def)
next
  case (Some cv)
  then show ?thesis
    by (auto simp: ext_def notify_def Let_def well_allocated_def start_entry_ok_def)
qed

lemma ext_new_conversation: "new_conversation fl props w = (c, w1) \<Longrightarrow> ext w w1"
  by (auto simp: ext_def new_conversation_def Let_def well_allocated_def)

lemma start_rule_ext:
  assumes "well_allocated w" and "start_rule w" and "ext w w'"
  shows "start_rule w' \<and> well_allocated w'"
proof -
  from assms(1,3) have wa: "well_allocated w'"
    and p: "\<forall>c cv. w_heap w c = Some cv \<longrightarrow> (\<exists>cv'. w_heap w' c = Some cv' \<and> c_parent cv' = c_parent cv \<and> c_flow cv' = c_flow cv)"
    and l: "\<exists>new. w_log w' = w_log w @ new \<and> (\<forall>x\<in>set new. start_entry_ok w' x)"
    unfolding ext_def by blast+
  from l obtain new where n: "w_log w' = w_log w @ new" "\<forall>x\<in>set new. start_entry_ok w' x" by blast
  have "\<forall>x\<in>set (w_log w). start_entry_ok w' x"
    using assms(2) p start_entry_ok_mono unfolding start_rule_def by blast
  with n have "start_rule w'" unfolding start_rule_def by auto
  with wa show ?thesis by blast
qed

lemma ext_then_upd_conv:
  assumes "ext w w1" and "\<And>cv. c_parent (f cv) = c_parent cv \<and> c_flow (f cv) = c_flow cv"
  shows "ext w (upd_conv c f w1)"
  using assms(1) ext_upd_conv[of f w1 c, OF assms(2)] by (rule ext_trans)

lemma ext_then_env: "ext w w1 \<Longrightarrow> env_only w1 w2 \<Longrightarrow> ext w w2"
  using ext_env_only ext_trans by blast

lemma get_with_A_ext: "mk_ext mk \<Longrightarrow> get_ext (get_with_A mk)"
  unfolding get_ext_def mk_ext_def
  by (auto simp: get_with_A_def await_step_def
           split: if_splits option.splits sum.splits prod.splits promise.splits
           dest!: load_hook_env intro: ext_env_only)

lemma scan_with_A_ext:
  assumes "get_ext getf"
  shows "scan_with_A getf c es w = Some (r, w') \<Longrightarrow> ext w w'"
proof (induction es arbitrary: w)
  case Nil
  then show ?case by simp
next
  case (Cons e es)
  from Cons.prems obtain x w1 where g: "getf c (Some (e_end e)) w = Some (x, w1)"
    by (auto split: option.splits)
  with assms have e1: "ext w w1" unfolding get_ext_def by blast
  show ?case
  proof (cases x)
    case (Inl err)
    with Cons.prems g have "w' = w1" by simp
    with e1 show ?thesis by simp
  next
    case (Inr cand)
    with Cons.prems g obtain y w2 where q: "hook_isReady cand w1 = Some (y, w2)"
      by (auto split: option.splits)
    from e1 hook_isReady_env[OF q] have e2: "ext w w2" by (rule ext_then_env)
    show ?thesis
    proof (cases y)
      case (Inl err)
      with Cons.prems g Inr q have "w' = w2" by simp
      with e2 show ?thesis by simp
    next
      case (Inr ready)
      show ?thesis
      proof (cases ready)
        case True
        with Cons.prems g \<open>x = Inr cand\<close> q Inr have "w' = w2" by simp
        with e2 show ?thesis by simp
      next
        case False
        with Cons.prems g \<open>x = Inr cand\<close> q Inr have "scan_with_A getf c es w2 = Some (r, w')"
          by simp
        from e2 Cons.IH[OF this] show ?thesis by (rule ext_trans)
      qed
    qed
  qed
qed

lemma genContinue_with_A_ext:
  assumes "get_ext getf"
  shows "genContinue_with_A getf n c i nx w = Some (r, w') \<Longrightarrow> ext w w'"
proof (induction n arbitrary: nx w)
  case 0
  then show ?case by simp
next
  case (Suc n)
  show ?case
  proof (cases nx)
    case None
    with Suc.prems have "w' = upd_conv c (\<lambda>cv. cv\<lparr>c_gen := GenDone\<rparr>) w" by simp
    then show ?thesis by (simp add: ext_upd_conv)
  next
    case (Some s)
    with Suc.prems obtain x w1 where q: "hook_isComplete_A (Suc n) (Some s) None w = Some (x, w1)"
      by (auto simp del: hook_isComplete_A.simps split: option.splits)
    have e1: "ext w w1" using hook_isComplete_A_env[OF q] by (rule ext_env_only)
    show ?thesis
    proof (cases x)
      case (Inl e)
      with Suc.prems Some q have "w' = upd_conv c (\<lambda>cv. cv\<lparr>c_gen := GenDone\<rparr>) w1"
        by (simp del: hook_isComplete_A.simps)
      with e1 show ?thesis by (simp add: ext_then_upd_conv)
    next
      case (Inr b)
      show ?thesis
      proof (cases "b = Some True")
        case False
        with Suc.prems Some q Inr have "w' = upd_conv c (\<lambda>cv. cv\<lparr>c_gen := GenSuspended s\<rparr>) w1"
          by (simp del: hook_isComplete_A.simps)
        with e1 show ?thesis by (simp add: ext_then_upd_conv)
      next
        case True
        define w1' where "w1' = upd_conv c (\<lambda>cv. cv\<lparr>breadcrumbs := breadcrumbs cv @ [s]\<rparr>) w1"
        have e2: "ext w w1'" using e1 by (simp add: w1'_def ext_then_upd_conv)
        from Suc.prems Some q Inr True have step:
          "(case (if truthy i then getf c i w1' else scan_with_A getf c (s_to s) w1') of
              None \<Rightarrow> None
            | Some (Inl e, w2) \<Rightarrow> Some (Inl e, upd_conv c (\<lambda>cv. cv\<lparr>c_gen := GenDone\<rparr>) w2)
            | Some (Inr nx', w2) \<Rightarrow> genContinue_with_A getf n c i nx' w2) = Some (r, w')"
          unfolding w1'_def by (simp del: hook_isComplete_A.simps)
        then obtain y w2 where
          g: "(if truthy i then getf c i w1' else scan_with_A getf c (s_to s) w1') = Some (y, w2)"
          by (cases "if truthy i then getf c i w1' else scan_with_A getf c (s_to s) w1'") auto
        have "ext w1' w2"
          using g assms scan_with_A_ext[OF assms] unfolding get_ext_def
          by (auto split: if_splits)
        with e2 have e3: "ext w w2" by (rule ext_trans)
        show ?thesis
        proof (cases y)
          case (Inl e)
          with step g have "w' = upd_conv c (\<lambda>cv. cv\<lparr>c_gen := GenDone\<rparr>) w2"
            by simp
          with e3 show ?thesis by (simp add: ext_then_upd_conv)
        next
          case (Inr nx')
          with step g have "genContinue_with_A getf n c i nx' w2 = Some (r, w')"
            by simp
          from e3 Suc.IH[OF this] show ?thesis by (rule ext_trans)
        qed
      qed
    qed
  qed
qed

lemma gen_next_with_A_ext:
  assumes "get_ext getf"
  shows "gen_next_with_A getf n c i w = Some (r, w') \<Longrightarrow> ext w w'"
  by (auto simp: gen_next_with_A_def await_step_def ext_upd_conv
           split: option.splits gen.splits promise.splits
           dest: genContinue_with_A_ext[OF assms])

lemma findStart_loop_with_A_ext:
  assumes "get_ext getf"
  shows "findStart_loop_with_A getf n c st idx w = Some (r, w') \<Longrightarrow> ext w w'"
proof (induction n arbitrary: st idx w)
  case 0
  then show ?case by simp
next
  case (Suc n)
  from Suc.prems obtain cv where cv: "w_heap w c = Some cv" by (auto split: option.splits)
  show ?case
  proof (cases "st \<noteq> None \<or> truthy (at_index (f_starts (c_flow cv)) idx)")
    case False
    with Suc.prems cv have "w' = w" by auto
    then show ?thesis by simp
  next
    case True
    with Suc.prems cv obtain x w1 where q: "hook_isReady st w = Some (x, w1)"
      by (auto split: option.splits)
    have e1: "ext w w1" using hook_isReady_env[OF q] by (rule ext_env_only)
    show ?thesis
    proof (cases x)
      case (Inl e)
      with Suc.prems cv True q have "w' = w1" by auto
      with e1 show ?thesis by simp
    next
      case (Inr ready)
      show ?thesis
      proof (cases ready)
        case True
        with Suc.prems cv \<open>st \<noteq> None \<or> truthy (at_index (f_starts (c_flow cv)) idx)\<close> q Inr
        have "w' = w1" by auto
        with e1 show ?thesis by simp
      next
        case False
        with Suc.prems cv \<open>st \<noteq> None \<or> truthy (at_index (f_starts (c_flow cv)) idx)\<close> q Inr
        obtain y w2 where
          g: "getf c (Some (case at_index (f_starts (c_flow cv)) idx of None \<Rightarrow> '' '' | Some i \<Rightarrow> i)) w1
                = Some (y, w2)"
          by (auto split: option.splits)
        with assms have "ext w1 w2" unfolding get_ext_def by blast
        with e1 have e2: "ext w w2" by (rule ext_trans)
        show ?thesis
        proof (cases y)
          case (Inl e)
          with Suc.prems cv \<open>st \<noteq> None \<or> truthy (at_index (f_starts (c_flow cv)) idx)\<close> q
            \<open>x = Inr ready\<close> False g
          have "w' = w2" by auto
          with e2 show ?thesis by simp
        next
          case (Inr st')
          with Suc.prems cv \<open>st \<noteq> None \<or> truthy (at_index (f_starts (c_flow cv)) idx)\<close> q
            \<open>x = Inr ready\<close> False g
          have "findStart_loop_with_A getf n c st' (Suc idx) w2 = Some (r, w')" by auto
          from e2 Suc.IH[OF this] show ?thesis by (rule ext_trans)
        qed
      qed
    qed
  qed
qed

lemma findStart_with_A_ext:
  assumes "get_ext getf"
  shows "findStart_with_A getf n c start w = Some w' \<Longrightarrow> ext w w'"
proof -
  assume h: "findStart_with_A getf n c start w = Some w'"
  then obtain x w1 where g: "(if truthy start then getf c start w else Some (Inr None, w)) = Some (x, w1)"
    by (auto simp: findStart_with_A_def split: option.splits)
  have e1: "ext w w1" using g assms unfolding get_ext_def by (auto split: if_splits)
  show "ext w w'"
  proof (cases x)
    case (Inl e)
    with h g have "w' = upd_conv c (\<lambda>cv. cv\<lparr>c_step := Rejected e\<rparr>) w1"
      by (simp add: findStart_with_A_def)
    with e1 show ?thesis by (simp add: ext_then_upd_conv)
  next
    case (Inr st)
    with h g obtain y w2 where l: "findStart_loop_with_A getf n c st 0 w1 = Some (y, w2)"
      by (auto simp: findStart_with_A_def split: option.splits)
    from e1 findStart_loop_with_A_ext[OF assms l] have e2: "ext w w2" by (rule ext_trans)
    from h g Inr l have "(\<exists>f. (\<forall>cv. c_parent (f cv) = c_parent cv \<and> c_flow (f cv) = c_flow cv) \<and> w' = upd_conv c f w2)
        \<or> (\<exists>a s. w' = notify c a s w2)"
      by (auto simp: findStart_with_A_def split: sum.splits option.splits
               intro: exI[of _ "\<lambda>cv. cv\<lparr>c_step := Rejected e\<rparr>" for e])
    then show ?thesis
      using e2 ext_then_upd_conv ext_notify ext_trans by blast
  qed
qed

lemma prime_with_A_ext:
  assumes "get_ext getf"
  shows "prime_with_A getf n c w = Some w' \<Longrightarrow> ext w w'"
  by (auto simp: prime_with_A_def split: option.splits promise.splits prod.splits
           dest: gen_next_with_A_ext[OF assms])

lemma conversation_A_ext: "mk_ext (conversation_A n :: 'e props \<Rightarrow> 'e world \<Rightarrow> ('e, nat) outcome)"
proof (induction n)
  case 0
  show ?case by (auto simp: mk_ext_def split: if_splits)
next
  case (Suc n)
  have g: "get_ext (get_with_A (conversation_A n :: 'e props \<Rightarrow> 'e world \<Rightarrow> ('e, nat) outcome))"
    using Suc by (rule get_with_A_ext)
  show ?case
    unfolding mk_ext_def
  proof (intro allI impI)
    fix props and w :: "'e world" and r w'
    assume h: "conversation_A (Suc n) props w = Some (r, w')"
    show "ext w w'"
    proof (cases "map_option f_type (p_flow props) \<noteq> Some ''conversation''")
      case True
      with h have "w' = w" by simp
      then show ?thesis by simp
    next
      case False
      obtain c w1 where nc: "new_conversation (the (p_flow props)) props w = (c, w1)"
        by (cases "new_conversation (the (p_flow props)) props w")
      with h False obtain w2 where
        fs: "findStart_with_A (get_with_A (conversation_A n)) n c (p_start props) w1 = Some w2" and
        pr: "prime_with_A (get_with_A (conversation_A n)) n c w2 = Some w'"
        by (auto split: option.splits)
      from ext_new_conversation[OF nc] findStart_with_A_ext[OF g fs] have "ext w w2"
        by (rule ext_trans)
      from this prime_with_A_ext[OF g pr] show ?thesis by (rule ext_trans)
    qed
  qed
qed

lemma get_A_ext: "get_ext (get_A n)"
  unfolding get_A_def using conversation_A_ext by (rule get_with_A_ext)

lemma continue_A_ext: "continue_A n c i fromChild w = Some (r, w') \<Longrightarrow> ext w w'"
proof (induction n arbitrary: c fromChild w r w')
  case 0
  then show ?case by simp
next
  case (Suc n)
  from Suc.prems obtain x w0 where a: "await_step c w = Some (x, w0)"
    by (auto split: option.splits)
  then have w0: "w0 = w" by (auto simp: await_step_def split: option.splits promise.splits)
  show ?case
  proof (cases x)
    case (Inl e)
    with Suc.prems a w0 show ?thesis by simp
  next
    case (Inr st)
    with Suc.prems a w0 obtain y w1 where
      d: "(case (if fromChild then None else sub_of st) of
             None \<Rightarrow> Some (Inr None, w)
           | Some k \<Rightarrow> continue_A n k i False w) = Some (y, w1)"
      by (auto split: option.splits)
    have e1: "ext w w1"
      using d Suc.IH by (auto split: option.splits if_splits)
    show ?thesis
    proof (cases y)
      case (Inl e)
      with Suc.prems a w0 \<open>x = Inr st\<close> d have "w' = w1" by simp
      with e1 show ?thesis by simp
    next
      case (Inr s')
      show ?thesis
      proof (cases s')
        case (Some s'')
        with Suc.prems a w0 \<open>x = Inr st\<close> d Inr have "w' = w1" by simp
        with e1 show ?thesis by simp
      next
        case None
        with Suc.prems a w0 \<open>x = Inr st\<close> d Inr obtain z w2 where
          g: "gen_next_A n c i w1 = Some (z, w2)"
          by (auto split: option.splits)
        have "ext w1 w2"
          using g gen_next_with_A_ext[OF get_A_ext] unfolding gen_next_A_def by blast
        with e1 have e2: "ext w w2" by (rule ext_trans)
        show ?thesis
        proof (cases z)
          case (Inl e)
          with Suc.prems a w0 \<open>x = Inr st\<close> d \<open>y = Inr s'\<close> None g have "w' = w2" by simp
          with e2 show ?thesis by simp
        next
          case (Inr vd)
          obtain v fin where vd: "vd = (v, fin)" by (cases vd)
          show ?thesis
          proof (cases "map_option s_id st = map_option s_id v")
            case True
            with Suc.prems a w0 \<open>x = Inr st\<close> d \<open>y = Inr s'\<close> None g Inr vd have "w' = w2" by simp
            with e2 show ?thesis by simp
          next
            case False
            with Suc.prems a w0 \<open>x = Inr st\<close> d \<open>y = Inr s'\<close> None g Inr vd
            obtain cv where cv: "w_heap w2 c = Some cv"
              by (auto split: option.splits)
            show ?thesis
            proof (cases "fin \<and> c_parent cv \<noteq> None")
              case True
              with Suc.prems a w0 \<open>x = Inr st\<close> d \<open>y = Inr s'\<close> None g Inr vd False cv
              have "continue_A n (the (c_parent cv)) i True w2 = Some (r, w')" by simp
              from e2 Suc.IH[OF this] show ?thesis by (rule ext_trans)
            next
              case nd: False
              with Suc.prems a w0 \<open>x = Inr st\<close> d \<open>y = Inr s'\<close> None g Inr vd False cv
              have "\<exists>act. w' = notify c act v w2" by auto
              then show ?thesis using e2 ext_notify ext_trans by blast
            qed
          qed
        qed
      qed
    qed
  qed
qed

lemma back_nav_ext: "back_nav n c fromChild w = Some (r, w') \<Longrightarrow> ext w w'"
proof (induction n arbitrary: c fromChild w r w')
  case 0
  then show ?case by simp
next
  case (Suc n)
  from Suc.prems obtain x w0 where a: "await_step c w = Some (x, w0)"
    by (auto split: option.splits)
  then have w0: "w0 = w" by (auto simp: await_step_def split: option.splits promise.splits)
  show ?case
  proof (cases x)
    case (Inl e)
    with Suc.prems a w0 show ?thesis by simp
  next
    case (Inr st)
    show ?thesis
    proof (cases "if fromChild then None else sub_of st")
      case (Some k)
      with Suc.prems a w0 Inr have "back_nav n k False w = Some (r, w')" by simp
      then show ?thesis by (rule Suc.IH)
    next
      case None
      with Suc.prems a w0 Inr obtain cv where cv: "w_heap w c = Some cv"
        by (auto split: option.splits)
      show ?thesis
      proof (cases "breadcrumbs cv = []")
        case True
        with Suc.prems a w0 Inr None cv show ?thesis
          using Suc.IH by (auto split: option.splits)
      next
        case False
        define w2 where "w2 = upd_conv c (\<lambda>cv. cv\<lparr>breadcrumbs := butlast (breadcrumbs cv)\<rparr>) w"
        have w2: "w2 = w\<lparr>w_heap := (w_heap w)(c \<mapsto> cv\<lparr>breadcrumbs := butlast (breadcrumbs cv)\<rparr>)\<rparr>"
          using cv by (simp add: w2_def upd_conv_def)
        with Suc.prems a w0 Inr None cv False
        have "w' = notify c (Some ''back'') (Some (last (breadcrumbs cv))) w2"
          by (simp add: Let_def)
        moreover have "ext w w2" by (simp add: w2_def ext_upd_conv)
        ultimately show ?thesis using ext_notify ext_trans by blast
      qed
    qed
  qed
qed

lemma get_with_B_ext: "mk_ext mk \<Longrightarrow> get_ext (get_with_B mk)"
  unfolding get_ext_def mk_ext_def
  by (auto simp: get_with_B_def await_step_def
           split: if_splits option.splits sum.splits prod.splits promise.splits
           dest!: load_hook_env intro: ext_env_only)

lemma scan_with_B_ext:
  assumes "get_ext getf"
  shows "scan_with_B getf c es nx w = Some (r, w') \<Longrightarrow> ext w w'"
proof (induction es arbitrary: nx w)
  case Nil
  then show ?case by simp
next
  case (Cons e es)
  from Cons.prems obtain x w1 where g: "getf c (Some (e_end e)) w = Some (x, w1)"
    by (auto split: option.splits)
  with assms have e1: "ext w w1" unfolding get_ext_def by blast
  show ?case
  proof (cases x)
    case (Inl err)
    with Cons.prems g have "w' = w1" by simp
    with e1 show ?thesis by simp
  next
    case (Inr cand)
    with Cons.prems g obtain y w2 where q: "hook_isReady_B cand w1 = Some (y, w2)"
      by (auto split: option.splits)
    from e1 hook_isReady_B_env[OF q] have e2: "ext w w2" by (rule ext_then_env)
    show ?thesis
    proof (cases y)
      case (Inl err)
      with Cons.prems g Inr q have "w' = w2" by simp
      with e2 show ?thesis by simp
    next
      case (Inr ready)
      with Cons.prems g \<open>x = Inr cand\<close> q
      have "scan_with_B getf c es (if ready then cand else nx) w2 = Some (r, w')" by simp
      from e2 Cons.IH[OF this] show ?thesis by (rule ext_trans)
    qed
  qed
qed

lemma gen_yield_ext: "gen_yield c nx w = Some (r, w') \<Longrightarrow> ext w w'"
  by (auto simp: gen_yield_def ext_upd_conv split: option.splits)

lemma gen_throw_ext: "gen_throw c e w = Some (r, w') \<Longrightarrow> ext w w'"
  by (auto simp: gen_throw_def ext_upd_conv)

lemma gen_start_B_ext: "gen_start_B c (Some (x, w1)) = Some (r, w') \<Longrightarrow> ext w1 w'"
  by (cases x) (auto simp: gen_start_B_def dest: gen_yield_ext gen_throw_ext)

lemma gen_resume_with_B_ext:
  assumes "get_ext getf" and "isc_env isc"
  shows "gen_resume_with_B getf isc c i w = Some (r, w') \<Longrightarrow> ext w w'"
proof -
  assume h: "gen_resume_with_B getf isc c i w = Some (r, w')"
  then obtain x w1 where g: "getf c i w = Some (x, w1)"
    by (auto simp: gen_resume_with_B_def split: option.splits)
  with assms(1) have e1: "ext w w1" unfolding get_ext_def by blast
  show "ext w w'"
  proof (cases x)
    case (Inl e)
    with h g have "gen_throw c e w1 = Some (r, w')" by (simp add: gen_resume_with_B_def)
    from e1 gen_throw_ext[OF this] show ?thesis by (rule ext_trans)
  next
    case (Inr st)
    with h g obtain y w2 where q: "hook_isComplete_B isc st w1 = Some (y, w2)"
      by (auto simp: gen_resume_with_B_def split: option.splits)
    from e1 hook_isComplete_B_env[OF assms(2) q] have e2: "ext w w2" by (rule ext_then_env)
    show ?thesis
    proof (cases y)
      case (Inl e)
      with h g \<open>x = Inr st\<close> q have "gen_throw c e w2 = Some (r, w')"
        by (simp add: gen_resume_with_B_def)
      from e2 gen_throw_ext[OF this] show ?thesis by (rule ext_trans)
    next
      case (Inr complete)
      show ?thesis
      proof (cases complete)
        case False
        with h g \<open>x = Inr st\<close> q Inr have "gen_yield c st w2 = Some (r, w')"
          by (simp add: gen_resume_with_B_def)
        from e2 gen_yield_ext[OF this] show ?thesis by (rule ext_trans)
      next
        case True
        define w2' where "w2' = upd_conv c (\<lambda>cv. cv\<lparr>breadcrumbs := breadcrumbs cv @ [the st]\<rparr>) w2"
        have e3: "ext w w2'" using e2 by (simp add: w2'_def ext_then_upd_conv)
        from h g \<open>x = Inr st\<close> q Inr True have step:
          "(case scan_with_B getf c (s_to (the st)) None w2' of
              None \<Rightarrow> None
            | Some (Inl e, w3) \<Rightarrow> gen_throw c e w3
            | Some (Inr nx, w3) \<Rightarrow> gen_yield c nx w3) = Some (r, w')"
          unfolding w2'_def by (simp add: gen_resume_with_B_def)
        then obtain z w3 where s: "scan_with_B getf c (s_to (the st)) None w2' = Some (z, w3)"
          by (cases "scan_with_B getf c (s_to (the st)) None w2'") auto
        from e3 scan_with_B_ext[OF assms(1) s] have e4: "ext w w3" by (rule ext_trans)
        from step s have "ext w3 w'"
          by (cases z) (auto dest: gen_throw_ext gen_yield_ext)
        with e4 show ?thesis by (rule ext_trans)
      qed
    qed
  qed
qed

lemma gen_next_with_B_ext:
  assumes "get_ext getf" and "isc_env isc"
  shows "gen_next_with_B getf isc c i w = Some (r, w') \<Longrightarrow> ext w w'"
proof -
  assume h: "gen_next_with_B getf isc c i w = Some (r, w')"
  then obtain cv where cv: "w_heap w c = Some cv"
    by (auto simp: gen_next_with_B_def split: option.splits)
  show "ext w w'"
  proof (cases "c_gen cv")
    case GenDone
    with h cv have "w' = w" by (simp add: gen_next_with_B_def)
    then show ?thesis by simp
  next
    case (GenSuspended s)
    with h cv have "gen_resume_with_B getf isc c i w = Some (r, w')"
      by (simp add: gen_next_with_B_def)
    then show ?thesis by (rule gen_resume_with_B_ext[OF assms])
  next
    case GenCreated
    with h cv have s: "gen_start_B c (await_step c w) = Some (r, w')"
      by (simp add: gen_next_with_B_def)
    then obtain x w0 where a: "await_step c w = Some (x, w0)"
      by (cases "await_step c w") (auto simp: gen_start_B_def)
    then have "w0 = w" by (auto simp: await_step_def split: option.splits promise.splits)
    with s a show ?thesis by (auto dest: gen_start_B_ext)
  qed
qed

lemma findStart_loop_with_B_ext:
  assumes "get_ext getf" and "isc_env isc"
  shows "findStart_loop_with_B getf isc n c (Some (x, w1)) = Some (r, w') \<Longrightarrow> ext w1 w'"
proof (induction n arbitrary: x w1)
  case 0
  then show ?case by simp
next
  case (Suc n)
  show ?case
  proof (cases x)
    case (Inl e)
    with Suc.prems have "w' = w1" by simp
    then show ?thesis by simp
  next
    case (Inr vd)
    obtain vertex fin where vd: "vd = (vertex, fin)" by (cases vd)
    with Suc.prems Inr obtain y w2 where q: "hook_isComplete_B isc vertex w1 = Some (y, w2)"
      by (auto split: option.splits)
    have e1: "ext w1 w2" using hook_isComplete_B_env[OF assms(2) q] by (rule ext_env_only)
    show ?thesis
    proof (cases y)
      case (Inl e)
      with Suc.prems \<open>x = Inr vd\<close> vd q have "w' = w2" by simp
      with e1 show ?thesis by simp
    next
      case (Inr complete)
      show ?thesis
      proof (cases complete)
        case False
        with Suc.prems \<open>x = Inr vd\<close> vd q Inr have "w' = w2" by simp
        with e1 show ?thesis by simp
      next
        case True
        with Suc.prems \<open>x = Inr vd\<close> vd q Inr have l:
          "findStart_loop_with_B getf isc n c
             (gen_next_with_B getf isc c (map_option s_id vertex) w2) = Some (r, w')"
          by simp
        then obtain z w3 where
          g: "gen_next_with_B getf isc c (map_option s_id vertex) w2 = Some (z, w3)"
          by (cases "gen_next_with_B getf isc c (map_option s_id vertex) w2";
              cases n) auto
        from e1 gen_next_with_B_ext[OF assms g] have e2: "ext w1 w3" by (rule ext_trans)
        from l g have "findStart_loop_with_B getf isc n c (Some (z, w3)) = Some (r, w')" by simp
        from e2 Suc.IH[OF this] show ?thesis by (rule ext_trans)
      qed
    qed
  qed
qed

lemma findStart_with_B_ext:
  assumes "get_ext getf" and "isc_env isc"
  shows "findStart_with_B getf isc n c start w = Some w' \<Longrightarrow> ext w w'"
proof -
  assume h: "findStart_with_B getf isc n c start w = Some w'"
  then obtain cv where cv: "w_heap w c = Some cv"
    by (auto simp: findStart_with_B_def split: option.splits)
  show "ext w w'"
  proof (cases "has_property (f_steps (c_flow cv)) (case start of None \<Rightarrow> ''undefined'' | Some s \<Rightarrow> s)")
    case True
    with h cv obtain x w1 where
      g: "(if truthy start then getf c start w else Some (Inr None, w)) = Some (x, w1)"
      by (auto simp: findStart_with_B_def split: option.splits)
    have e1: "ext w w1" using g assms(1) unfolding get_ext_def by (auto split: if_splits)
    show ?thesis
    proof (cases x)
      case (Inl e)
      with h cv True g have "w' = upd_conv c (\<lambda>cv. cv\<lparr>c_step := Rejected e\<rparr>) w1"
        by (auto simp: findStart_with_B_def)
      with e1 show ?thesis by (simp add: ext_then_upd_conv)
    next
      case (Inr st)
      with h cv True g obtain y where
        n: "gen_next_with_B getf isc c None (notify c start st w1) = Some (y, w')"
        by (auto simp: findStart_with_B_def split: option.splits)
      from e1 ext_notify have "ext w (notify c start st w1)" by (rule ext_trans)
      from this gen_next_with_B_ext[OF assms n] show ?thesis by (rule ext_trans)
    qed
  next
    case False
    define started where "started =
      (case find (\<lambda>(i, v). v_type v = Some ''stadium'' \<or> v_uri v = start) (f_steps (c_flow cv)) of
         None \<Rightarrow> Some (Inr None, w)
       | Some (i, v) \<Rightarrow> (if truthy (Some i) then getf c (Some i) w else Some (Inr None, w)))"
    from h cv False have step:
      "(case findStart_loop_with_B getf isc n c (gen_start_B c started) of
          None \<Rightarrow> None
        | Some (Inl e, w1) \<Rightarrow> Some (upd_conv c (\<lambda>cv. cv\<lparr>c_step := Rejected e\<rparr>) w1)
        | Some (Inr None, w1) \<Rightarrow> Some (upd_conv c (\<lambda>cv. cv\<lparr>c_step := Rejected NoStartFound\<rparr>) w1)
        | Some (Inr (Some vertex), w1) \<Rightarrow> Some (notify c (Some ''start'') (Some vertex) w1)) = Some w'"
      unfolding started_def by (simp add: findStart_with_B_def)
    then obtain y w3 where l: "findStart_loop_with_B getf isc n c (gen_start_B c started) = Some (y, w3)"
      by (cases "findStart_loop_with_B getf isc n c (gen_start_B c started)") auto
    then obtain z w2 where s: "gen_start_B c started = Some (z, w2)"
      by (cases "gen_start_B c started"; cases n) auto
    then obtain x w1 where st: "started = Some (x, w1)"
      by (cases started) (auto simp: gen_start_B_def)
    have e1: "ext w w1"
      using st assms(1) unfolding started_def get_ext_def
      by (auto split: option.splits if_splits prod.splits)
    from s st have "ext w1 w2" by (auto dest: gen_start_B_ext)
    with e1 have e2: "ext w w2" by (rule ext_trans)
    from l s have "ext w2 w3" by (auto dest: findStart_loop_with_B_ext[OF assms])
    with e2 have e3: "ext w w3" by (rule ext_trans)
    from step l have "(\<exists>f. (\<forall>cv. c_parent (f cv) = c_parent cv \<and> c_flow (f cv) = c_flow cv) \<and> w' = upd_conv c f w3)
        \<or> (\<exists>a s. w' = notify c a s w3)"
      by (auto split: sum.splits option.splits
               intro: exI[of _ "\<lambda>cv. cv\<lparr>c_step := Rejected e\<rparr>" for e])
    then show ?thesis
      using e3 ext_then_upd_conv ext_notify ext_trans by blast
  qed
qed

lemma conversation_B_ext: "mk_ext (conversation_B n :: 'e props \<Rightarrow> 'e world \<Rightarrow> ('e, nat) outcome)"
proof (induction n)
  case 0
  show ?case by (auto simp: mk_ext_def split: if_splits sum.splits)
next
  case (Suc n)
  have g: "get_ext (get_with_B (conversation_B n :: 'e props \<Rightarrow> 'e world \<Rightarrow> ('e, nat) outcome))"
    using Suc by (rule get_with_B_ext)
  show ?case
    unfolding mk_ext_def
  proof (intro allI impI)
    fix props and w :: "'e world" and r w'
    assume h: "conversation_B (Suc n) props w = Some (r, w')"
    show "ext w w'"
    proof (cases "read_flow props w")
      case (Inl e)
      with h have "w' = w" by simp
      then show ?thesis by simp
    next
      case (Inr fl)
      show ?thesis
      proof (cases "is_flowchart fl")
        case False
        with h Inr have "w' = w" by simp
        then show ?thesis by simp
      next
        case True
        obtain c w1 where nc: "new_conversation (the fl) props w = (c, w1)"
          by (cases "new_conversation (the fl) props w")
        with h Inr True have
          fs: "findStart_with_B (get_with_B (conversation_B n)) (isComplete_B n) n c (p_start props) w1
                 = Some w'"
          by (auto split: option.splits)
        from ext_new_conversation[OF nc] findStart_with_B_ext[OF g isComplete_B_env fs]
        show ?thesis by (rule ext_trans)
      qed
    qed
  qed
qed

lemma get_B_ext: "get_ext (get_B n)"
  unfolding get_B_def using conversation_B_ext by (rule get_with_B_ext)

lemma continue_B_ext: "continue_B n c i fromChild w = Some (r, w') \<Longrightarrow> ext w w'"
proof (induction n arbitrary: c fromChild w r w')
  case 0
  then show ?case by simp
next
  case (Suc n)
  from Suc.prems obtain x w0 where a: "await_step c w = Some (x, w0)"
    by (auto split: option.splits)
  then have w0: "w0 = w" by (auto simp: await_step_def split: option.splits promise.splits)
  show ?case
  proof (cases x)
    case (Inl e)
    with Suc.prems a w0 show ?thesis by simp
  next
    case (Inr st)
    with Suc.prems a w0 obtain y w1 where
      d: "(case (if fromChild then None else sub_of st) of
             None \<Rightarrow> Some (Inr None, w)
           | Some k \<Rightarrow> continue_B n k i False w) = Some (y, w1)"
      by (auto split: option.splits)
    have e1: "ext w w1"
      using d Suc.IH by (auto split: option.splits if_splits)
    show ?thesis
    proof (cases y)
      case (Inl e)
      with Suc.prems a w0 \<open>x = Inr st\<close> d have "w' = w1" by simp
      with e1 show ?thesis by simp
    next
      case (Inr s')
      show ?thesis
      proof (cases s')
        case (Some s'')
        with Suc.prems a w0 \<open>x = Inr st\<close> d Inr have "w' = w1" by simp
        with e1 show ?thesis by simp
      next
        case None
        with Suc.prems a w0 \<open>x = Inr st\<close> d Inr obtain z w2 where
          g: "gen_next_B n c i w1 = Some (z, w2)"
          by (auto split: option.splits)
        have "ext w1 w2"
          using g gen_next_with_B_ext[OF get_B_ext isComplete_B_env] unfolding gen_next_B_def
          by blast
        with e1 have e2: "ext w w2" by (rule ext_trans)
        show ?thesis
        proof (cases z)
          case (Inl e)
          with Suc.prems a w0 \<open>x = Inr st\<close> d \<open>y = Inr s'\<close> None g have "w' = w2" by simp
          with e2 show ?thesis by simp
        next
          case (Inr vd)
          obtain v fin where vd: "vd = (v, fin)" by (cases vd)
          with Suc.prems a w0 \<open>x = Inr st\<close> d \<open>y = Inr s'\<close> None g Inr obtain q w3 where
            k: "(if i = None \<and> \<not> fin then hook_isComplete_B (isComplete_B n) v w2
                 else Some (Inr False, w2)) = Some (q, w3)"
            by (auto split: option.splits)
          have "env_only w2 w3"
            using k hook_isComplete_B_env[OF isComplete_B_env] by (auto split: if_splits)
          with e2 have e3: "ext w w3" by (rule ext_then_env)
          show ?thesis
          proof (cases q)
            case (Inl e)
            with Suc.prems a w0 \<open>x = Inr st\<close> d \<open>y = Inr s'\<close> None g \<open>z = Inr vd\<close> vd k
            have "w' = w3" by simp
            with e3 show ?thesis by simp
          next
            case (Inr complete)
            show ?thesis
            proof (cases complete)
              case True
              with Suc.prems a w0 \<open>x = Inr st\<close> d \<open>y = Inr s'\<close> None g \<open>z = Inr vd\<close> vd k Inr
              have "continue_B n c i fromChild (notify c (Some ''continue'') v w3) = Some (r, w')"
                by simp
              from this have "ext (notify c (Some ''continue'') v w3) w'" by (rule Suc.IH)
              with ext_notify have "ext w3 w'" by (rule ext_trans)
              with e3 show ?thesis by (rule ext_trans)
            next
              case False
              with Suc.prems a w0 \<open>x = Inr st\<close> d \<open>y = Inr s'\<close> None g \<open>z = Inr vd\<close> vd k Inr
              obtain cv where cv: "w_heap w3 c = Some cv"
                by (auto split: option.splits)
              show ?thesis
              proof (cases "fin \<and> c_parent cv \<noteq> None")
                case True
                with Suc.prems a w0 \<open>x = Inr st\<close> d \<open>y = Inr s'\<close> None g \<open>z = Inr vd\<close> vd k Inr
                  False cv
                have "continue_B n (the (c_parent cv)) i True w3 = Some (r, w')" by simp
                from e3 Suc.IH[OF this] show ?thesis by (rule ext_trans)
              next
                case nd: False
                with Suc.prems a w0 \<open>x = Inr st\<close> d \<open>y = Inr s'\<close> None g \<open>z = Inr vd\<close> vd k Inr
                  False cv
                have "\<exists>act. w' = notify c act v w3" by auto
                then show ?thesis using e3 ext_notify ext_trans by blast
              qed
            qed
          qed
        qed
      qed
    qed
  qed
qed

lemma ext_arrays: "ext w (w\<lparr>w_arrays := a\<rparr>)"
  by (auto simp: ext_def well_allocated_def start_entry_ok_def)

lemma subscribe_ext: "subscribe n c ob w = Some w' \<Longrightarrow> ext w w'"
proof (induction n arbitrary: c w)
  case 0
  then show ?case by simp
next
  case (Suc n)
  from Suc.prems obtain cv where cv: "w_heap w c = Some cv" by (auto split: option.splits)
  define w1 where "w1 = w\<lparr>w_arrays := (w_arrays w)(c_observers cv := w_arrays w (c_observers cv) @ [ob])\<rparr>"
  have e1: "ext w w1" unfolding w1_def by (rule ext_arrays)
  show ?case
  proof (cases "c_parent cv")
    case None
    with Suc.prems cv have "w' = w1" by (simp add: w1_def Let_def)
    with e1 show ?thesis by simp
  next
    case (Some p)
    with Suc.prems cv have "subscribe n p ob w1 = Some w'" by (simp add: w1_def Let_def)
    from e1 Suc.IH[OF this] show ?thesis by (rule ext_trans)
  qed
qed

lemma unsubscribe_ext: "unsubscribe n c ob w = Some w' \<Longrightarrow> ext w w'"
proof (induction n arbitrary: c w)
  case 0
  then show ?case by simp
next
  case (Suc n)
  from Suc.prems obtain cv where cv: "w_heap w c = Some cv" by (auto split: option.splits)
  define w1 where "w1 = w\<lparr>w_arrays := (w_arrays w)(c_observers cv :=
      splice1 (findIndex (\<lambda>itm. itm = ob) (w_arrays w (c_observers cv))) (w_arrays w (c_observers cv)))\<rparr>"
  have e1: "ext w w1" unfolding w1_def by (rule ext_arrays)
  show ?case
  proof (cases "c_parent cv")
    case None
    with Suc.prems cv have "w' = w1" by (simp add: w1_def Let_def)
    with e1 show ?thesis by simp
  next
    case (Some p)
    with Suc.prems cv have "unsubscribe n p ob w1 = Some w'" by (simp add: w1_def Let_def)
    from e1 Suc.IH[OF this] show ?thesis by (rule ext_trans)
  qed
qed

subsection \<open>Who sends \<open>start\<close>\<close>

text \<open>
  Claim C9.  Every call of an observer is recorded in the log of the store with the
  conversation that made it.  Take a well-allocated store in which every notification
  with the action \<open>start\<close> was sent by a conversation without a parent.  Whatever
  operation of either variant returns from it (the construction of a conversation,
  nested ones included, \<open>continue\<close>, \<open>back\<close>, \<open>subscribe\<close>, \<open>unsubscribe\<close>), the store
  it leaves is again such a store: no conversation with a parent has sent \<open>start\<close>.
\<close>

theorem start_notified_only_by_root:
  assumes "well_allocated w" and "start_rule w"
    and "conversation_A n props w = Some (k, w') \<or> conversation_B n props w = Some (k, w')
       \<or> continue_A n c i fromChild w = Some (r, w') \<or> continue_B n c i fromChild w = Some (r, w')
       \<or> back_nav n c fromChild w = Some (r, w')
       \<or> subscribe n c ob w = Some w' \<or> unsubscribe n c ob w = Some w'"
  shows "well_allocated w' \<and> start_rule w'"
proof -
  have ca: "\<And>x. conversation_A n props w = Some (x, w') \<Longrightarrow> ext w w'"
    using conversation_A_ext[of n] unfolding mk_ext_def by blast
  have cb: "\<And>x. conversation_B n props w = Some (x, w') \<Longrightarrow> ext w w'"
    using conversation_B_ext[of n] unfolding mk_ext_def by blast
  from assms(3) have "ext w w'"
    by (elim disjE) (erule ca cb continue_A_ext continue_B_ext back_nav_ext subscribe_ext
        unsubscribe_ext)+
  with assms(1,2) show ?thesis using start_rule_ext by blast
qed

theorem start_notified_only_by_root_witness:
  "start_rule idle_nested_w
   \<and> (let w = idle_nested_w in (w_log w, map_option c_parent (w_heap w 1), view w 1))
     = ([(0, 7, Some ''start'', Some ''start''), (0, 7, Some ''continue'', Some ''sub'')],
        Some (Some 0), [], Some (Inr (Some ''s1'')))"
proof -
  let ?p = "observed_props idle_nested_flow None"
  let ?r0 = "conversation_A 6 ?p listening_world"
  let ?w0 = "result_world ?r0"
  let ?r1 = "continue_A 6 0 None False ?w0"
  have a: "well_allocated listening_world" "start_rule listening_world"
    by (simp_all add: well_allocated_def start_rule_def listening_world_def empty_world_def)
  have "map_option fst ?r0 = Some (Inr 0)"
    by (simp add: scenario_defs both_ready_defs eval_nat_numeral Let_def run_defs example_defs engine_defs)
  then have r0: "?r0 = Some (Inr 0, ?w0)" by (auto simp: result_world_def)
  have v: "(let r = ?r1 in (result_id r, w_log (result_world r),
              map_option c_parent (w_heap (result_world r) 1), view (result_world r) 1))
      = (Some (Inr (Some ''sub'')),
         [(0, 7, Some ''start'', Some ''start''), (0, 7, Some ''continue'', Some ''sub'')],
         Some (Some 0), [], Some (Inr (Some ''s1'')))"
    by (simp add: scenario_defs both_ready_defs eval_nat_numeral Let_def run_defs example_defs engine_defs)
  then have "\<exists>x. ?r1 = Some (x, idle_nested_w)"
    by (auto simp: Let_def result_id_def result_world_def idle_nested_w_def)
  then obtain x where r1: "continue_A 6 0 None False ?w0 = Some (x, idle_nested_w)" by blast
  from start_notified_only_by_root[OF a, of 6 ?p "Inr 0" ?w0] r0
  have b: "well_allocated ?w0" "start_rule ?w0" by blast+
  from start_notified_only_by_root[OF b, where n=6 and c=0 and i=None and fromChild=False
      and r=x and w'=idle_nested_w] r1
  have "start_rule idle_nested_w" by blast
  with v show ?thesis by (simp add: Let_def idle_nested_w_def)
qed

subsection \<open>No entry vertex is ready\<close>

lemma env_only_frame:
  assumes "env_only w w'"
  shows "w_heap w' = w_heap w" and "well_allocated w \<Longrightarrow> well_allocated w'"
  using assms by (auto simp: env_only_def well_allocated_def)

lemma ext_keeps_flow:
  assumes "ext w w'" and "well_allocated w" and "w_heap w c = Some cv"
  shows "well_allocated w' \<and> (\<exists>cv'. w_heap w' c = Some cv' \<and> c_flow cv' = c_flow cv)"
  using assms unfolding ext_def by blast

lemma findStart_loop_unready:
  assumes ge: "get_ext getf"
    and blank: "\<And>w cv. w_heap w c = Some cv \<Longrightarrow> c_flow cv = fl \<Longrightarrow>
                  getf c (Some '' '') w = Some (Inr None, w)"
  shows "k = length (f_starts fl) - idx \<Longrightarrow> idx \<le> length (f_starts fl) \<Longrightarrow>
         well_allocated w \<Longrightarrow> w_heap w c = Some cv \<Longrightarrow> c_flow cv = fl \<Longrightarrow>
         hook_isReady st w = Some (Inr False, w0) \<Longrightarrow>
         entries_unready getf c (drop idx (f_starts fl)) w0 = Some w1 \<Longrightarrow>
         k + 2 \<le> m \<Longrightarrow>
         \<exists>w2. findStart_loop_with_A getf m c st idx w = Some (Inr None, w2) \<and> ext w w2"
proof (induction k arbitrary: idx st w w0 cv m)
  case 0
  then have idx: "at_index (f_starts fl) idx = None" "at_index (f_starts fl) (Suc idx) = None"
    by (simp_all add: at_index_def)
  from "0.prems"(8) obtain m' where m: "m = Suc (Suc m')" by (cases m; cases "m - 1") auto
  have eo: "env_only w w0" using "0.prems"(6) by (rule hook_isReady_env)
  then have h0: "w_heap w0 c = Some cv" using "0.prems"(4) by (simp add: env_only_frame)
  have blank_get: "getf c (Some '' '') w0 = Some (Inr None, w0)"
    using h0 "0.prems"(5) by (rule blank)
  show ?case
  proof (cases st)
    case None
    then have "findStart_loop_with_A getf m c st idx w = Some (Inr None, w)"
      using "0.prems"(4,5) idx m by (simp add: truthy_def)
    then show ?thesis by auto
  next
    case (Some s)
    then have "findStart_loop_with_A getf m c st idx w = Some (Inr None, w0)"
      using "0.prems"(4,5,6) h0 idx m blank_get by (simp add: truthy_def)
    then show ?thesis using eo ext_env_only by blast
  qed
next
  case (Suc k)
  then have lt: "idx < length (f_starts fl)" by simp
  define i where "i = f_starts fl ! idx"
  have idx: "at_index (f_starts fl) idx = Some i" using lt by (simp add: at_index_def i_def)
  have dr: "drop idx (f_starts fl) = i # drop (Suc idx) (f_starts fl)"
    using lt by (simp add: i_def Cons_nth_drop_Suc)
  from Suc.prems(8) obtain m' where m: "m = Suc m'" by (cases m) auto
  have eo: "env_only w w0" using Suc.prems(6) by (rule hook_isReady_env)
  then have h0: "w_heap w0 c = Some cv" and wa0: "well_allocated w0"
    using Suc.prems(3,4) by (simp_all add: env_only_frame)
  show ?case
  proof (cases "st = None \<and> i = []")
    case True
    then have "findStart_loop_with_A getf m c st idx w = Some (Inr None, w)"
      using Suc.prems(4,5) idx m by (simp add: truthy_def)
    then show ?thesis by auto
  next
    case False
    then have go: "st \<noteq> None \<or> truthy (Some i)" by (auto simp: truthy_def)
    from Suc.prems(7) dr obtain st' w1' w2' where
      g: "getf c (Some i) w0 = Some (Inr st', w1')"
      and r: "hook_isReady st' w1' = Some (Inr False, w2')"
      and rest: "entries_unready getf c (drop (Suc idx) (f_starts fl)) w2' = Some w1"
      by (auto split: option.splits sum.splits if_splits)
    from ge g have e1: "ext w0 w1'" unfolding get_ext_def by blast
    from ext_keeps_flow[OF e1 wa0 h0] Suc.prems(5) obtain cv' where
      wa1: "well_allocated w1'" and h1: "w_heap w1' c = Some cv'" and f1: "c_flow cv' = fl"
      by auto
    have "\<exists>w2. findStart_loop_with_A getf m' c st' (Suc idx) w1' = Some (Inr None, w2) \<and> ext w1' w2"
    proof (rule Suc.IH[OF _ _ wa1 h1 f1 r rest])
      show "k = length (f_starts fl) - Suc idx" using Suc.prems(1) by simp
      show "Suc idx \<le> length (f_starts fl)" using lt by simp
      show "k + 2 \<le> m'" using Suc.prems(8) m by simp
    qed
    then obtain w2 where l: "findStart_loop_with_A getf m' c st' (Suc idx) w1' = Some (Inr None, w2)"
      and e2: "ext w1' w2" by blast
    have "findStart_loop_with_A getf m c st idx w = Some (Inr None, w2)"
      using Suc.prems(4,5,6) idx m go g l by (simp add: truthy_def)
    moreover have "ext w w2"
      using ext_env_only[OF eo] e1 e2 ext_trans by blast
    ultimately show ?thesis by blast
  qed
qed

text \<open>
  Claim C8, as the code has it (variant A).  Without an explicit start, let every
  entry in \<open>starts\<close>, resolved and asked in this order from the store of the call,
  resolve and answer \<open>isReady()\<close> with false, and let \<open>steps\<close> have no property with the
  blank id that the loop looks up once \<open>starts\<close> is exhausted.  Then \<open>findStart\<close> ends with
  \<open>NoStartFound\<close> left in \<open>this.step\<close>, and \<open>isReady()\<close> rejects with this error.  The
  store of the call is well allocated, as every store that the operations build is
  (so that a nested conversation created on the way takes a fresh address); the fuel
  needed is the length of \<open>starts\<close> plus two.
\<close>

theorem no_ready_entry_no_start:
  assumes "well_allocated w" and "w_heap w c = Some cv" and "\<not> truthy start"
    and "entries_unready (get_A n) c (f_starts (c_flow cv)) w = Some w1"
    and "\<not> has_property (f_steps (c_flow cv)) '' ''"
    and "length (f_starts (c_flow cv)) + 2 \<le> n"
  shows "\<exists>w'. findStart_A n c start w = Some w' \<and> current_id w' c = Some (Inl NoStartFound)
            \<and> isReady c w' = Some (Inl NoStartFound, w')"
proof -
  have blank: "\<And>w' cv'. w_heap w' c = Some cv' \<Longrightarrow> c_flow cv' = c_flow cv \<Longrightarrow>
      get_A n c (Some '' '') w' = Some (Inr None, w')"
    using assms(5) by (auto simp: get_A_def get_with_A_def truthy_def has_property_def)
  have r: "hook_isReady None w = Some (Inr False, w)" by simp
  have "\<exists>w2. findStart_loop_with_A (get_A n) n c None 0 w = Some (Inr None, w2) \<and> ext w w2"
  proof (rule findStart_loop_unready[where getf="get_A n" and fl="c_flow cv" and c=c,
        OF get_A_ext blank refl _ assms(1,2) refl r])
    show "0 \<le> length (f_starts (c_flow cv))" by simp
    show "entries_unready (get_A n) c (drop 0 (f_starts (c_flow cv))) w = Some w1"
      using assms(4) by simp
    show "length (f_starts (c_flow cv)) - 0 + 2 \<le> n" using assms(6) by simp
  qed
  then obtain w2 where loop: "findStart_loop_with_A (get_A n) n c None 0 w = Some (Inr None, w2)"
    and e: "ext w w2"
    by blast
  from ext_keeps_flow[OF e assms(1,2)] obtain cv2 where h2: "w_heap w2 c = Some cv2" by blast
  define w' where "w' = upd_conv c (\<lambda>cv. cv\<lparr>c_step := Rejected NoStartFound\<rparr>) w2"
  have fs: "findStart_A n c start w = Some w'"
    using assms(3) loop by (simp add: findStart_A_def findStart_with_A_def w'_def)
  have "w_heap w' c = Some (cv2\<lparr>c_step := Rejected NoStartFound\<rparr>)"
    using h2 by (simp add: w'_def upd_conv_def)
  then have "current_id w' c = Some (Inl NoStartFound)"
    and "isReady c w' = Some (Inl NoStartFound, w')"
    by (simp_all add: current_id_def isReady_def await_step_def)
  with fs show ?thesis by blast
qed

theorem no_ready_entry_no_start_witness:
  "\<exists>w'. findStart_A 3 0 None (constructed unready_entry_A) = Some w'
      \<and> current_id w' 0 = Some (Inl NoStartFound)
      \<and> isReady 0 w' = Some (Inl NoStartFound, w')"
proof -
  have "\<exists>cv. w_heap (constructed unready_entry_A) 0 = Some cv \<and> c_flow cv = unready_entry_A"
    by (simp add: scenario_defs run_defs example_defs engine_defs)
  then obtain cv where a: "w_heap (constructed unready_entry_A) 0 = Some cv"
    and fl: "c_flow cv = unready_entry_A"
    by blast
  have wa: "well_allocated (constructed unready_entry_A)"
    by (simp add: well_allocated_def scenario_defs run_defs example_defs engine_defs)
  have b: "\<not> truthy None" by (simp add: truthy_def)
  have "\<exists>w1. entries_unready (get_A 3) 0 [''start''] (constructed unready_entry_A) = Some w1"
    by (simp add: scenario_defs run_defs example_defs engine_defs)
  then obtain w1 where
    c: "entries_unready (get_A 3) 0 (f_starts (c_flow cv)) (constructed unready_entry_A) = Some w1"
    by (auto simp: fl unready_entry_A_def)
  have d: "\<not> has_property (f_steps (c_flow cv)) '' ''"
    by (simp add: fl scenario_defs has_property_def inherited_names_def)
  have e: "length (f_starts (c_flow cv)) + 2 \<le> 3"
    by (simp add: fl scenario_defs)
  from no_ready_entry_no_start[OF wa a b c d e] show ?thesis .
qed

text \<open>Claim C8 as stated fails in two ways.  Variant B does not ask an entry for its
  readiness: the stadium \<open>start\<close>, whose \<open>isReady()\<close> resolves false, is adopted and
  \<open>isReady()\<close> of the conversation resolves true.  And in variant A an entry that
  cannot be resolved makes \<open>isReady()\<close> reject with the error of the resolution, here
  \<open>MissingSubroutineSource\<close>, not with \<open>NoStartFound\<close>.\<close>

theorem no_ready_entry_counterexample:
  "isReady_view (conversation_B 4 (observed_props unready_entry_B None) listening_world) =
     Some (([], Some (Inr (Some ''start''))), Some (Inr True), [(0, 7, Some ''start'', Some ''start'')])
   \<and> isReady_view (conversation_A 4 (observed_props sub_entry_flow None) listening_world) =
     Some (([], Some (Inl (MissingSubroutineSource ''sub''))),
           Some (Inl (MissingSubroutineSource ''sub'')), [])"
  by (simp add: scenario_defs eval_nat_numeral Let_def run_defs example_defs engine_defs)

text \<open>An id that is no key of \<open>steps\<close> but the name of an inherited property passes the
  \<open>in\<close> test of \<open>get\<close>, and the destructuring throws: as an entry, and as an explicit
  start of variant B, it makes \<open>isReady()\<close> reject with a \<open>TypeError\<close>.\<close>

lemma inherited_name_rejects:
  "isReady_view (conversation_A 4 (observed_props inherited_entry_A None) listening_world) =
     Some (([], Some (Inl TypeError)), Some (Inl TypeError), [])
   \<and> isReady_view (conversation_B 4 (observed_props unready_entry_B (Some ''toString'')) listening_world) =
     Some (([], Some (Inl TypeError)), Some (Inl TypeError), [])"
  by (simp add: scenario_defs inherited_entry_A_def eval_nat_numeral Let_def run_defs example_defs
        engine_defs)

end
